theory Spec2Isabelle
  imports Complex_Main "HOL-Library.Sublist" "HOL-Library.Multiset"
begin

section \<open>Strings\<close>

text \<open>
  A JavaScript string is the sequence of its UTF-16 code units, and \<open>.length\<close>,
  \<open>includes\<close>, \<open>split\<close>, \<open>substring\<close> and a \<open>RegExp\<close> without the \<open>u\<close> flag all work on
  code units. A string is modelled as the list of its code units, each a natural number.
  \<open>codeUnits\<close> gives the code units of a literal of ASCII characters.
\<close>

type_synonym jsstring = "nat list"

definition codeUnits :: "string \<Rightarrow> jsstring" where
  "codeUnits s = map of_char s"

text \<open>
  \<open>String.prototype.toLowerCase\<close> follows the Unicode case mappings, which depend on the
  context of a character. It is not modelled: every function that lowercases takes the
  operation as its first parameter, named \<open>toLowerCase\<close>, and nothing is assumed of it.
\<close>

type_synonym lowering = "jsstring \<Rightarrow> jsstring"

text \<open>
  The white space of \<open>\s\<close> and of \<open>trim()\<close>: the ECMAScript \<open>WhiteSpace\<close> and
  \<open>LineTerminator\<close> code points. These are tab, line feed, vertical tab, form feed,
  carriage return, space, no-break space, U+1680, U+2000 to U+200A, the line and paragraph
  separators U+2028 and U+2029, U+202F, U+205F, U+3000 and U+FEFF.
\<close>

definition isWhiteSpace :: "nat \<Rightarrow> bool" where
  "isWhiteSpace c =
     (c \<in> set [0x09, 0x0A, 0x0B, 0x0C, 0x0D, 0x20, 0xA0, 0x1680, 0x2028, 0x2029, 0x202F,
               0x205F, 0x3000, 0xFEFF]
      \<or> (0x2000 \<le> c \<and> c \<le> 0x200A))"

text \<open>\<open>s.trim()\<close>\<close>

definition trim :: "jsstring \<Rightarrow> jsstring" where
  "trim s = rev (dropWhile isWhiteSpace (rev (dropWhile isWhiteSpace s)))"

text \<open>
  \<open>s.split(/[sep]+/)\<close> for a class \<open>sep\<close> of single code units: the fragments between the
  maximal runs of separators. A separator run at the start or at the end of the string
  gives an empty first or last fragment, and the empty string gives one empty fragment,
  as in ECMAScript.
\<close>

function splitRuns :: "(nat \<Rightarrow> bool) \<Rightarrow> jsstring \<Rightarrow> jsstring list" where
  "splitRuns sep s =
     (if dropWhile (\<lambda>c. \<not> sep c) s = [] then [takeWhile (\<lambda>c. \<not> sep c) s]
      else takeWhile (\<lambda>c. \<not> sep c) s
             # splitRuns sep (dropWhile sep (tl (dropWhile (\<lambda>c. \<not> sep c) s))))"
  by pat_completeness auto
termination
proof (relation "measure (\<lambda>(sep, s). length s)")
  fix sep :: "nat \<Rightarrow> bool" and s :: jsstring
  assume ne: "dropWhile (\<lambda>c. \<not> sep c) s \<noteq> []"
  let ?r = "dropWhile (\<lambda>c. \<not> sep c) s"
  have "length (dropWhile sep (tl ?r)) \<le> length (tl ?r)"
    by (rule length_dropWhile_le)
  also have "\<dots> < length ?r" using ne by (cases ?r) simp_all
  also have "\<dots> \<le> length s" by (rule length_dropWhile_le)
  finally show "((sep, dropWhile sep (tl ?r)), (sep, s)) \<in> measure (\<lambda>(sep, s). length s)"
    by simp
qed simp

text \<open>\<open>text.includes(term)\<close>: \<open>term\<close> occurs in \<open>text\<close> as a contiguous substring.\<close>

fun includesStr :: "jsstring \<Rightarrow> jsstring \<Rightarrow> bool" where
  "includesStr [] term = (term = [])"
| "includesStr (c # cs) term = (prefix term (c # cs) \<or> includesStr cs term)"

text \<open>\<open>parts.join(' ')\<close>\<close>

fun joinSpace :: "jsstring list \<Rightarrow> jsstring" where
  "joinSpace [] = []"
| "joinSpace [p] = p"
| "joinSpace (p # q # ps) = p @ codeUnits '' '' @ joinSpace (q # ps)"

text \<open>
  \<open>s.substring(0, n)\<close> and \<open>xs.slice(0, n)\<close> for an integer \<open>n\<close>. \<open>substring\<close> clamps a
  negative end to 0; \<open>slice\<close> counts a negative end from the end of the array. A
  fractional end is first truncated towards zero (\<open>ToIntegerOrInfinity\<close>).
\<close>

definition substring0 :: "jsstring \<Rightarrow> int \<Rightarrow> jsstring" where
  "substring0 s n = take (nat n) s"

definition toIntegerOrInfinity :: "rat \<Rightarrow> int" where
  "toIntegerOrInfinity x = (if x < 0 then - \<lfloor>- x\<rfloor> else \<lfloor>x\<rfloor>)"

definition slice0 :: "'a list \<Rightarrow> rat \<Rightarrow> 'a list" where
  "slice0 xs end =
     (let len = int (length xs); e = toIntegerOrInfinity end;
          k = (if e < 0 then max (len + e) 0 else min e len)
      in take (nat k) xs)"

section \<open>Regular expressions built from a query term\<close>

text \<open>
  \<open>performKeywordSearch\<close> evaluates \<open>searchText.match(new RegExp(term, 'g'))\<close>: the term
  is used as a pattern, not as a literal. The ECMAScript engine is outside the
  repository. Three classes of patterns whose behaviour the language fixes are modelled
  directly:
  \<^item> a term without syntax characters is a sequence of literal code units; a global
    match scans left to right and resumes after the end of each match, so the matches
    do not overlap;
  \<^item> such a literal followed by one final \<open>$\<close> matches once if the text ends with the
    literal and not at all otherwise;
  \<^item> a term whose only syntax characters are parentheses and whose parentheses do not
    balance is not a pattern: the constructor throws a \<open>SyntaxError\<close>.
  Every other term is handed to a parameter \<open>engine\<close>, which returns either the error
  the constructor throws or the function counting the matches in a text.
\<close>

datatype js_error = SyntaxError | EmbeddingError | IndexError

type_synonym regex_engine = "jsstring \<Rightarrow> js_error + (jsstring \<Rightarrow> nat)"

text \<open>The syntax characters: the backslash (code unit 92) and \<open>^ $ . * + ? ( ) [ ] { } |\<close>.\<close>

definition isSyntaxCharacter :: "nat \<Rightarrow> bool" where
  "isSyntaxCharacter c = (c \<in> set (92 # codeUnits ''^$.*+?()[]{}|''))"

definition literalPattern :: "jsstring \<Rightarrow> bool" where
  "literalPattern term = list_all (\<lambda>c. \<not> isSyntaxCharacter c) term"

function literalMatches :: "jsstring \<Rightarrow> jsstring \<Rightarrow> nat" where
  "literalMatches term [] = 0"
| "literalMatches term (c # cs) =
     (if term \<noteq> [] \<and> prefix term (c # cs)
      then Suc (literalMatches term (drop (length term) (c # cs)))
      else literalMatches term cs)"
  by pat_completeness auto
termination
  by (relation "measure (\<lambda>(term, text). length text)") auto

text \<open>The empty pattern matches the empty string at every index, the end included.\<close>

definition globalMatchCount :: "jsstring \<Rightarrow> jsstring \<Rightarrow> nat" where
  "globalMatchCount term text =
     (if term = [] then Suc (length text) else literalMatches term text)"

definition endAnchoredLiteral :: "jsstring \<Rightarrow> bool" where
  "endAnchoredLiteral term =
     (term \<noteq> [] \<and> [last term] = codeUnits ''$'' \<and> literalPattern (butlast term))"

definition onlyGroupSyntax :: "jsstring \<Rightarrow> bool" where
  "onlyGroupSyntax term =
     list_all (\<lambda>c. isSyntaxCharacter c \<longrightarrow> [c] = codeUnits ''('' \<or> [c] = codeUnits '')'') term"

fun groupsBalanced :: "nat \<Rightarrow> jsstring \<Rightarrow> bool" where
  "groupsBalanced depth [] = (depth = 0)"
| "groupsBalanced depth (c # cs) =
     (if [c] = codeUnits ''('' then groupsBalanced (Suc depth) cs
      else if [c] = codeUnits '')'' then 0 < depth \<and> groupsBalanced (depth - 1) cs
      else groupsBalanced depth cs)"

text \<open>
  \<open>new RegExp(term, 'g')\<close> followed by \<open>(text.match(re) || []).length\<close>: the error
  thrown by the constructor, or the number of matches as a function of the text.
\<close>

definition regExpMatchCount :: "regex_engine \<Rightarrow> jsstring \<Rightarrow> js_error + (jsstring \<Rightarrow> nat)" where
  "regExpMatchCount engine term =
     (if literalPattern term then Inr (globalMatchCount term)
      else if endAnchoredLiteral term
        then Inr (\<lambda>text. if suffix (butlast term) text then 1 else 0)
      else if onlyGroupSyntax term \<and> \<not> groupsBalanced 0 term then Inl SyntaxError
      else engine term)"

section \<open>Data model\<close>

text \<open>
  \<open>Case\<close>, \<open>CaseSearchResult\<close> and \<open>VectorSearchResult\<close> of \<open>types/case.ts\<close>, with the
  fields the search service reads. Scores are JavaScript numbers; they are modelled as
  rationals, which is exact for the keyword scores (multiples of one half) and keeps the
  order and the sign of a difference of any two finite scores.
\<close>

record Case =
  caseId :: jsstring
  caseTitle :: jsstring
  caseCategory :: jsstring
  caseTags :: "jsstring list"
  caseDifficulty :: jsstring
  caseContent :: jsstring

record CaseSearchResult =
  resultId :: jsstring
  resultTitle :: jsstring
  resultCategory :: jsstring
  resultTags :: "jsstring list"
  relevanceScore :: rat
  excerpt :: jsstring

record VectorSearchResult =
  hitId :: jsstring
  hitScore :: rat

text \<open>
  The \<open>options\<close> argument of \<open>searchCases\<close>: every field may be absent. \<open>limit\<close> is a
  number, not necessarily an integer.
\<close>

record SearchOptions =
  optCategory :: "jsstring option"
  optDifficulty :: "jsstring option"
  optLimit :: "rat option"

section \<open>The result map\<close>

text \<open>
  \<open>Map<string, CaseSearchResult>\<close> keeps its entries in insertion order. \<open>set\<close> on a key
  that is present replaces the value and keeps the entry's position; on a new key it
  appends the entry.
\<close>

type_synonym result_map = "(jsstring \<times> CaseSearchResult) list"

definition Map_has :: "result_map \<Rightarrow> jsstring \<Rightarrow> bool" where
  "Map_has m k = (k \<in> set (map fst m))"

fun Map_set :: "result_map \<Rightarrow> jsstring \<Rightarrow> CaseSearchResult \<Rightarrow> result_map" where
  "Map_set [] k v = [(k, v)]"
| "Map_set ((k', v') # m) k v = (if k' = k then (k, v) # m else (k', v') # Map_set m k v)"

definition Map_get :: "result_map \<Rightarrow> jsstring \<Rightarrow> CaseSearchResult option" where
  "Map_get m k = map_of m k"

definition Map_values :: "result_map \<Rightarrow> CaseSearchResult list" where
  "Map_values m = map snd m"

definition Map_size :: "result_map \<Rightarrow> nat" where
  "Map_size m = length m"

text \<open>
  \<open>xs.sort((a, b) => b.relevanceScore - a.relevanceScore)\<close>: \<open>Array.prototype.sort\<close> is
  stable, and a stable sort by descending score has exactly one result, the one
  computed here by insertion.
\<close>

definition sortDescending :: "CaseSearchResult list \<Rightarrow> CaseSearchResult list" where
  "sortDescending rs = sort_key (\<lambda>r. - relevanceScore r) rs"

section \<open>SearchService.createExcerpt\<close>

definition isSentenceEnd :: "nat \<Rightarrow> bool" where
  "isSentenceEnd c = (c \<in> set (codeUnits ''.!?''))"

definition excerptTerms :: "lowering \<Rightarrow> jsstring \<Rightarrow> jsstring list" where
  "excerptTerms toLowerCase query = splitRuns isWhiteSpace (toLowerCase query)"

definition sentencesOf :: "jsstring \<Rightarrow> jsstring list" where
  "sentencesOf content =
     filter (\<lambda>s. length s > 0) (map trim (splitRuns isSentenceEnd content))"

text \<open>The \<open>reduce\<close> over the query terms: one point per term found in the sentence.\<close>

definition sentenceScore :: "lowering \<Rightarrow> jsstring list \<Rightarrow> jsstring \<Rightarrow> nat" where
  "sentenceScore toLowerCase queryTerms sentence =
     foldl (\<lambda>acc term. acc + (if includesStr (toLowerCase sentence) term then 1 else 0))
       0 queryTerms"

fun bestLoop :: "lowering \<Rightarrow> jsstring list \<Rightarrow> jsstring \<Rightarrow> nat \<Rightarrow> jsstring list \<Rightarrow> jsstring" where
  "bestLoop toLowerCase queryTerms bestSentence bestScore [] = bestSentence"
| "bestLoop toLowerCase queryTerms bestSentence bestScore (sentence # rest) =
     (if sentenceScore toLowerCase queryTerms sentence > bestScore
      then bestLoop toLowerCase queryTerms sentence
             (sentenceScore toLowerCase queryTerms sentence) rest
      else bestLoop toLowerCase queryTerms bestSentence bestScore rest)"

text \<open>The value of \<open>bestSentence\<close> when the loop is left, before the truncation.\<close>

definition chosenSentence :: "lowering \<Rightarrow> jsstring \<Rightarrow> jsstring \<Rightarrow> jsstring" where
  "chosenSentence toLowerCase content query =
     (let sentences = sentencesOf content
      in bestLoop toLowerCase (excerptTerms toLowerCase query)
           (case sentences of [] \<Rightarrow> [] | s # _ \<Rightarrow> s) 0 sentences)"

definition createExcerpt :: "lowering \<Rightarrow> jsstring \<Rightarrow> jsstring \<Rightarrow> int \<Rightarrow> jsstring" where
  "createExcerpt toLowerCase content query maxLength =
     (let bestSentence = chosenSentence toLowerCase content query
      in if int (length bestSentence) > maxLength
         then substring0 bestSentence (maxLength - 3) @ codeUnits ''...''
         else bestSentence)"

section \<open>SearchService.performKeywordSearch\<close>

definition keywordTerms :: "lowering \<Rightarrow> jsstring \<Rightarrow> jsstring list" where
  "keywordTerms toLowerCase query =
     filter (\<lambda>term. length term > 2) (splitRuns isWhiteSpace (toLowerCase query))"

definition searchText :: "lowering \<Rightarrow> Case \<Rightarrow> jsstring" where
  "searchText toLowerCase caseItem =
     toLowerCase (caseTitle caseItem @ codeUnits '' '' @ joinSpace (caseTags caseItem)
                    @ codeUnits '' '' @ caseContent caseItem)"

text \<open>
  The loop over the query terms, with the running \<open>score\<close>. A term whose \<open>RegExp\<close>
  cannot be built throws out of the loop.
\<close>

fun scoreLoop :: "lowering \<Rightarrow> regex_engine \<Rightarrow> Case \<Rightarrow> rat \<Rightarrow> jsstring list \<Rightarrow> js_error + rat" where
  "scoreLoop toLowerCase engine caseItem score [] = Inr score"
| "scoreLoop toLowerCase engine caseItem score (term # terms) =
     (let score1 = (if includesStr (toLowerCase (caseTitle caseItem)) term then score + 3
                    else score);
          score2 = (if list_ex (\<lambda>tag. includesStr (toLowerCase tag) term) (caseTags caseItem)
                    then score1 + 2 else score1)
      in case regExpMatchCount engine term of
           Inl e \<Rightarrow> Inl e
         | Inr matchCount \<Rightarrow>
             scoreLoop toLowerCase engine caseItem
               (score2 + of_nat (matchCount (searchText toLowerCase caseItem)) * (1 / 2)) terms)"

definition keywordScore :: "lowering \<Rightarrow> regex_engine \<Rightarrow> jsstring \<Rightarrow> Case \<Rightarrow> js_error + rat" where
  "keywordScore toLowerCase engine query caseItem =
     scoreLoop toLowerCase engine caseItem 0 (keywordTerms toLowerCase query)"

definition keywordResult :: "lowering \<Rightarrow> jsstring \<Rightarrow> Case \<Rightarrow> rat \<Rightarrow> CaseSearchResult" where
  "keywordResult toLowerCase query caseItem s =
     \<lparr>resultId = caseId caseItem, resultTitle = caseTitle caseItem,
      resultCategory = caseCategory caseItem, resultTags = caseTags caseItem,
      relevanceScore = s,
      excerpt = createExcerpt toLowerCase (caseContent caseItem) query 200\<rparr>"

text \<open>The \<open>map\<close> over the cases; the first throw ends it.\<close>

fun scoreCases :: "lowering \<Rightarrow> regex_engine \<Rightarrow> jsstring \<Rightarrow> Case list \<Rightarrow> js_error + CaseSearchResult list"
  where
  "scoreCases toLowerCase engine query [] = Inr []"
| "scoreCases toLowerCase engine query (caseItem # rest) =
     (case keywordScore toLowerCase engine query caseItem of
        Inl e \<Rightarrow> Inl e
      | Inr s \<Rightarrow>
          (case scoreCases toLowerCase engine query rest of
             Inl e \<Rightarrow> Inl e
           | Inr rs \<Rightarrow> Inr (keywordResult toLowerCase query caseItem s # rs)))"

definition performKeywordSearch ::
  "lowering \<Rightarrow> regex_engine \<Rightarrow> Case list \<Rightarrow> jsstring \<Rightarrow> js_error + CaseSearchResult list" where
  "performKeywordSearch toLowerCase engine cases query =
     (case scoreCases toLowerCase engine query cases of
        Inl e \<Rightarrow> Inl e
      | Inr rs \<Rightarrow> Inr (sortDescending (filter (\<lambda>result. relevanceScore result > 0) rs)))"

section \<open>VectorService.searchSimilar\<close>

text \<open>
  The embedding service and the vector index are remote. They are parameters: each call
  either fails or returns. A hit of the index may come without a score.
\<close>

record RawHit =
  rawId :: jsstring
  rawScore :: "rat option"

record Adapter =
  embeddingsCreate :: "jsstring \<Rightarrow> js_error + rat list option"
  indexQuery :: "rat list \<Rightarrow> rat \<Rightarrow> js_error + RawHit list"

text \<open>\<open>response.data[0]?.embedding || []\<close>; an error is logged and thrown again.\<close>

definition generateEmbedding :: "Adapter \<Rightarrow> jsstring \<Rightarrow> js_error + rat list" where
  "generateEmbedding adapter text =
     (case embeddingsCreate adapter text of
        Inl e \<Rightarrow> Inl e
      | Inr None \<Rightarrow> Inr []
      | Inr (Some embedding) \<Rightarrow> Inr embedding)"

definition searchSimilar :: "Adapter \<Rightarrow> jsstring \<Rightarrow> rat \<Rightarrow> VectorSearchResult list" where
  "searchSimilar adapter query limit =
     (case generateEmbedding adapter query of
        Inl e \<Rightarrow> []
      | Inr queryEmbedding \<Rightarrow>
          (case indexQuery adapter queryEmbedding limit of
             Inl e \<Rightarrow> []
           | Inr results \<Rightarrow>
               map (\<lambda>result. \<lparr>hitId = rawId result,
                                hitScore = (case rawScore result of None \<Rightarrow> 0 | Some s \<Rightarrow> s)\<rparr>)
                 results))"

section \<open>SearchService.searchCases\<close>

text \<open>\<open>if (category)\<close>: an absent filter and the empty string are both falsy.\<close>

definition provided :: "jsstring option \<Rightarrow> bool" where
  "provided v = (case v of None \<Rightarrow> False | Some s \<Rightarrow> s \<noteq> [])"

definition limitOf :: "SearchOptions \<Rightarrow> rat" where
  "limitOf options = (case optLimit options of None \<Rightarrow> 5 | Some l \<Rightarrow> l)"

definition filterCases :: "SearchOptions \<Rightarrow> Case list \<Rightarrow> Case list" where
  "filterCases options allCases =
     (let filtered1 = (if provided (optCategory options)
                       then filter (\<lambda>c. caseCategory c = the (optCategory options)) allCases
                       else allCases)
      in if provided (optDifficulty options)
         then filter (\<lambda>c. caseDifficulty c = the (optDifficulty options)) filtered1
         else filtered1)"

definition vectorResult :: "lowering \<Rightarrow> jsstring \<Rightarrow> Case \<Rightarrow> VectorSearchResult \<Rightarrow> CaseSearchResult" where
  "vectorResult toLowerCase query caseItem hit =
     \<lparr>resultId = caseId caseItem, resultTitle = caseTitle caseItem,
      resultCategory = caseCategory caseItem, resultTags = caseTags caseItem,
      relevanceScore = hitScore hit,
      excerpt = createExcerpt toLowerCase (caseContent caseItem) query 200\<rparr>"

fun vectorLoop ::
  "lowering \<Rightarrow> Case list \<Rightarrow> jsstring \<Rightarrow> result_map \<Rightarrow> VectorSearchResult list \<Rightarrow> result_map" where
  "vectorLoop toLowerCase filteredCases query results [] = results"
| "vectorLoop toLowerCase filteredCases query results (hit # hits) =
     (case find (\<lambda>c. caseId c = hitId hit) filteredCases of
        None \<Rightarrow> vectorLoop toLowerCase filteredCases query results hits
      | Some caseItem \<Rightarrow>
          vectorLoop toLowerCase filteredCases query
            (Map_set results (caseId caseItem) (vectorResult toLowerCase query caseItem hit)) hits)"

fun keywordLoop :: "rat \<Rightarrow> result_map \<Rightarrow> CaseSearchResult list \<Rightarrow> result_map" where
  "keywordLoop limit results [] = results"
| "keywordLoop limit results (match # matches) =
     keywordLoop limit
       (if of_nat (Map_size results) < limit then Map_set results (resultId match) match
        else results)
       matches"

text \<open>The result map after the loop over the vector hits.\<close>

definition vectorEntries ::
  "lowering \<Rightarrow> Adapter \<Rightarrow> Case list \<Rightarrow> jsstring \<Rightarrow> SearchOptions \<Rightarrow> result_map" where
  "vectorEntries toLowerCase adapter allCases query options =
     vectorLoop toLowerCase (filterCases options allCases) query []
       (searchSimilar adapter query (limitOf options * 2))"

text \<open>The cases handed to \<open>performKeywordSearch\<close>.\<close>

definition keywordCandidates ::
  "lowering \<Rightarrow> Adapter \<Rightarrow> Case list \<Rightarrow> jsstring \<Rightarrow> SearchOptions \<Rightarrow> Case list" where
  "keywordCandidates toLowerCase adapter allCases query options =
     filter (\<lambda>c. \<not> Map_has (vectorEntries toLowerCase adapter allCases query options) (caseId c))
       (filterCases options allCases)"

text \<open>The result map when the body of the \<open>try\<close> reaches its \<open>return\<close>, or the error.\<close>

definition resultMap ::
  "lowering \<Rightarrow> regex_engine \<Rightarrow> Adapter \<Rightarrow> Case list \<Rightarrow> jsstring \<Rightarrow> SearchOptions \<Rightarrow> js_error + result_map"
  where
  "resultMap toLowerCase engine adapter allCases query options =
     (case performKeywordSearch toLowerCase engine
             (keywordCandidates toLowerCase adapter allCases query options) query of
        Inl e \<Rightarrow> Inl e
      | Inr keywordMatches \<Rightarrow>
          Inr (keywordLoop (limitOf options)
                 (vectorEntries toLowerCase adapter allCases query options) keywordMatches))"

definition searchBody ::
  "lowering \<Rightarrow> regex_engine \<Rightarrow> Adapter \<Rightarrow> Case list \<Rightarrow> jsstring \<Rightarrow> SearchOptions
     \<Rightarrow> js_error + CaseSearchResult list" where
  "searchBody toLowerCase engine adapter allCases query options =
     (case resultMap toLowerCase engine adapter allCases query options of
        Inl e \<Rightarrow> Inl e
      | Inr results \<Rightarrow> Inr (slice0 (sortDescending (Map_values results)) (limitOf options)))"

text \<open>\<open>allCases\<close> is what \<open>caseLoader.getAllCases()\<close> returns; \<open>catch\<close> returns \<open>[]\<close>.\<close>

definition searchCases ::
  "lowering \<Rightarrow> regex_engine \<Rightarrow> Adapter \<Rightarrow> Case list \<Rightarrow> jsstring \<Rightarrow> SearchOptions \<Rightarrow> CaseSearchResult list"
  where
  "searchCases toLowerCase engine adapter allCases query options =
     (case searchBody toLowerCase engine adapter allCases query options of
        Inl e \<Rightarrow> []
      | Inr results \<Rightarrow> results)"

text \<open>A result that carries the id, title, category and tags of a case.\<close>

definition builtFrom :: "Case \<Rightarrow> CaseSearchResult \<Rightarrow> bool" where
  "builtFrom caseItem result =
     (resultId result = caseId caseItem \<and> resultTitle result = caseTitle caseItem
      \<and> resultCategory result = caseCategory caseItem
      \<and> resultTags result = caseTags caseItem)"

section \<open>The specification's wording, for comparison\<close>

text \<open>
  The hit-count of the specification: the number of distinct query tokens that occur in
  the sentence; and its choice: the earliest sentence of highest hit-count.
\<close>

definition specHitCount :: "lowering \<Rightarrow> jsstring list \<Rightarrow> jsstring \<Rightarrow> nat" where
  "specHitCount toLowerCase queryTerms sentence =
     length (remdups (filter (\<lambda>term. includesStr (toLowerCase sentence) term) queryTerms))"

definition specChosenSentence :: "lowering \<Rightarrow> jsstring \<Rightarrow> jsstring \<Rightarrow> jsstring" where
  "specChosenSentence toLowerCase content query =
     (let sentences = sentencesOf content; queryTerms = excerptTerms toLowerCase query;
          top = fold max (map (specHitCount toLowerCase queryTerms) sentences) 0
      in case filter (\<lambda>s. specHitCount toLowerCase queryTerms s = top) sentences of
           [] \<Rightarrow> []
         | s # _ \<Rightarrow> s)"



section \<open>Example data\<close>

text \<open>
  The examples are ASCII. On ASCII strings \<open>toLowerCase\<close> maps the code units of \<open>A\<close> to
  \<open>Z\<close> to those of \<open>a\<close> to \<open>z\<close> and keeps every other code unit; the examples pass this
  mapping for the parameter.
\<close>

definition asciiLowerCase :: lowering where
  "asciiLowerCase s = map (\<lambda>c. if 65 \<le> c \<and> c \<le> 90 then c + 32 else c) s"

text \<open>The two documents of the specification's example, and small stores around them.\<close>

definition docA :: Case where
  "docA = \<lparr>caseId = codeUnits ''a'', caseTitle = codeUnits ''Stripe Checkout'',
            caseCategory = codeUnits ''web'',
            caseTags = [codeUnits ''stripe'', codeUnits ''web''],
            caseDifficulty = codeUnits ''beginner'',
            caseContent = codeUnits ''Use Stripe for checkout. It is fast.''\<rparr>"

definition docB :: Case where
  "docB = \<lparr>caseId = codeUnits ''b'', caseTitle = codeUnits ''Auth Setup'',
            caseCategory = codeUnits ''backend'',
            caseTags = [codeUnits ''auth''], caseDifficulty = codeUnits ''advanced'',
            caseContent = codeUnits ''Supabase handles auth.''\<rparr>"

text \<open>An adapter whose embedding call fails, and one whose index query fails.\<close>

definition embeddingDown :: Adapter where
  "embeddingDown = \<lparr>embeddingsCreate = (\<lambda>text. Inl EmbeddingError),
                     indexQuery = (\<lambda>vector topK. Inr [])\<rparr>"

definition indexDown :: Adapter where
  "indexDown = \<lparr>embeddingsCreate = (\<lambda>text. Inr (Some [1, 0])),
                 indexQuery = (\<lambda>vector topK. Inl IndexError)\<rparr>"

text \<open>An engine for the patterns the model does not fix; the examples never reach it.\<close>

definition noEngine :: regex_engine where
  "noEngine = (\<lambda>term. Inl SyntaxError)"

definition noOptions :: SearchOptions where
  "noOptions = \<lparr>optCategory = None, optDifficulty = None, optLimit = None\<rparr>"

text \<open>A document whose title contains three opening parentheses.\<close>

definition docC :: Case where
  "docC = \<lparr>caseId = codeUnits ''c'', caseTitle = codeUnits ''Fix ((( bug'',
            caseCategory = codeUnits ''tools'', caseTags = [codeUnits ''regex''],
            caseDifficulty = codeUnits ''beginner'', caseContent = codeUnits ''Oops.''\<rparr>"

text \<open>An index that returns the same id twice, and an engine that never throws.\<close>

definition twoHits :: Adapter where
  "twoHits = \<lparr>embeddingsCreate = (\<lambda>text. Inr (Some [1, 0])),
               indexQuery = (\<lambda>vector topK.
                 Inr [\<lparr>rawId = codeUnits ''c'', rawScore = Some (9 / 10)\<rparr>,
                      \<lparr>rawId = codeUnits ''c'', rawScore = Some (1 / 10)\<rparr>])\<rparr>"

definition lenientEngine :: regex_engine where
  "lenientEngine = (\<lambda>term. Inr (\<lambda>text. 0))"


definition docY :: Case where
  "docY = \<lparr>caseId = codeUnits ''y'', caseTitle = codeUnits ''abc$'',
            caseCategory = codeUnits ''web'', caseTags = [codeUnits ''regex''],
            caseDifficulty = codeUnits ''beginner'', caseContent = codeUnits ''zzabc''\<rparr>"

text \<open>An index whose single hit has the keyword score of \<open>docA\<close> for \<open>fast\<close>.\<close>

definition tieHit :: Adapter where
  "tieHit = \<lparr>embeddingsCreate = (\<lambda>text. Inr (Some [1, 0])),
              indexQuery = (\<lambda>vector topK.
                Inr [\<lparr>rawId = codeUnits ''b'', rawScore = Some (1 / 2)\<rparr>])\<rparr>"

section \<open>Evaluation and auxiliary facts\<close>

declare splitRuns.simps [simp del]

lemmas eval_defs = searchCases_def searchBody_def resultMap_def keywordCandidates_def
  vectorEntries_def searchSimilar_def generateEmbedding_def limitOf_def filterCases_def
  provided_def performKeywordSearch_def keywordScore_def keywordResult_def vectorResult_def
  keywordTerms_def searchText_def createExcerpt_def chosenSentence_def sentencesOf_def
  excerptTerms_def sentenceScore_def isSentenceEnd_def sortDescending_def
  Map_has_def Map_values_def Map_size_def
  regExpMatchCount_def literalPattern_def isSyntaxCharacter_def globalMatchCount_def
  endAnchoredLiteral_def onlyGroupSyntax_def
  slice0_def toIntegerOrInfinity_def substring0_def trim_def isWhiteSpace_def
  asciiLowerCase_def codeUnits_def splitRuns.simps Let_def suffix_to_prefix

lemma slice0_length: "0 \<le> e \<Longrightarrow> of_nat (length (slice0 xs e)) \<le> e"
proof -
  assume e: "0 \<le> e"
  then have fl: "0 \<le> \<lfloor>e\<rfloor>" by simp
  have "length (slice0 xs e) \<le> nat \<lfloor>e\<rfloor>"
    using e fl by (simp add: slice0_def toIntegerOrInfinity_def Let_def)
  then have "(of_nat (length (slice0 xs e)) :: rat) \<le> of_nat (nat \<lfloor>e\<rfloor>)"
    by (simp only: of_nat_le_iff)
  also have "\<dots> = of_int \<lfloor>e\<rfloor>" using fl by simp
  also have "\<dots> \<le> e" by (rule of_int_floor_le)
  finally show ?thesis .
qed

section \<open>The length of the result\<close>

text \<open>
  C4. For every query, every document store, every behaviour of the adapter (hence every
  list of vector hits) and every limit \<open>L\<close> with \<open>1 \<le> L \<le> 20\<close>, integer or not, given
  or the default 5, \<open>searchCases\<close> returns at most \<open>L\<close> results.
\<close>

theorem search_length_le_limit:
  assumes "1 \<le> limitOf options" and "limitOf options \<le> 20"
  shows "of_nat (length (searchCases toLowerCase engine adapter allCases query options))
           \<le> limitOf options"
proof -
  have "0 \<le> limitOf options" using assms(1) by simp
  then show ?thesis
    using slice0_length [of "limitOf options"]
    by (auto simp: searchCases_def searchBody_def split: sum.splits)
qed

text \<open>
  Two documents match the query \<open>stripe auth\<close>; with limit 1 one result is returned.
\<close>

theorem search_length_le_limit_witness:
  "limitOf (noOptions\<lparr>optLimit := Some 1\<rparr>) = 1
   \<and> length (searchCases asciiLowerCase noEngine embeddingDown [docA, docB] (codeUnits ''stripe auth'')
               (noOptions\<lparr>optLimit := Some 1\<rparr>)) = 1
   \<and> of_nat (length (searchCases asciiLowerCase noEngine embeddingDown [docA, docB] (codeUnits ''stripe auth'')
                      (noOptions\<lparr>optLimit := Some 1\<rparr>))) \<le> (1 :: rat)"
proof -
  have 1: "limitOf (noOptions\<lparr>optLimit := Some 1\<rparr>) = 1"
    by (simp add: limitOf_def)
  have 2: "length (searchCases asciiLowerCase noEngine embeddingDown [docA, docB] (codeUnits ''stripe auth'')
                     (noOptions\<lparr>optLimit := Some 1\<rparr>)) = 1"
    by (simp add: eval_defs docA_def docB_def embeddingDown_def noEngine_def noOptions_def)
  have 3: "of_nat (length (searchCases asciiLowerCase noEngine embeddingDown [docA, docB] (codeUnits ''stripe auth'')
                             (noOptions\<lparr>optLimit := Some 1\<rparr>))) \<le> (1 :: rat)"
    using search_length_le_limit
            [where options = "noOptions\<lparr>optLimit := Some 1\<rparr>"
               and toLowerCase = asciiLowerCase and engine = noEngine
               and adapter = embeddingDown and allCases = "[docA, docB]"
               and query = "codeUnits ''stripe auth''"]
    unfolding 1 by simp
  show ?thesis by (intro conjI 1 2 3)
qed

section \<open>The excerpt\<close>

lemma sentenceScore_foldl:
  "foldl (\<lambda>acc term. acc + (if includesStr s term then 1 else 0)) n ts
     = n + length (filter (\<lambda>term. includesStr s term) ts)"
  by (induction ts arbitrary: n) auto

lemma sentenceScore_count:
  "sentenceScore toLowerCase ts s = length (filter (\<lambda>term. includesStr (toLowerCase s) term) ts)"
  by (simp add: sentenceScore_def sentenceScore_foldl)

lemma bestLoop_earliest_max:
  "bestLoop toLowerCase ts b (sentenceScore toLowerCase ts b) rest = r \<Longrightarrow>
     (r = b \<and> (\<forall>s\<in>set rest. sentenceScore toLowerCase ts s \<le> sentenceScore toLowerCase ts b))
     \<or> (\<exists>pre post. rest = pre @ r # post \<and> sentenceScore toLowerCase ts b < sentenceScore toLowerCase ts r
           \<and> (\<forall>s\<in>set pre. sentenceScore toLowerCase ts s < sentenceScore toLowerCase ts r)
           \<and> (\<forall>s\<in>set post. sentenceScore toLowerCase ts s \<le> sentenceScore toLowerCase ts r))"
proof (induction rest arbitrary: b)
  case Nil
  then show ?case by simp
next
  case (Cons s rest)
  show ?case
  proof (cases "sentenceScore toLowerCase ts b < sentenceScore toLowerCase ts s")
    case True
    with Cons.prems have "bestLoop toLowerCase ts s (sentenceScore toLowerCase ts s) rest = r" by simp
    from Cons.IH [OF this] show ?thesis
    proof
      assume "r = s \<and> (\<forall>x\<in>set rest. sentenceScore toLowerCase ts x \<le> sentenceScore toLowerCase ts s)"
      then have "s # rest = [] @ r # rest \<and> sentenceScore toLowerCase ts b < sentenceScore toLowerCase ts r
           \<and> (\<forall>x\<in>set []. sentenceScore toLowerCase ts x < sentenceScore toLowerCase ts r)
           \<and> (\<forall>x\<in>set rest. sentenceScore toLowerCase ts x \<le> sentenceScore toLowerCase ts r)"
        using True by simp
      then show ?thesis by blast
    next
      assume "\<exists>pre post. rest = pre @ r # post \<and> sentenceScore toLowerCase ts s < sentenceScore toLowerCase ts r
           \<and> (\<forall>x\<in>set pre. sentenceScore toLowerCase ts x < sentenceScore toLowerCase ts r)
           \<and> (\<forall>x\<in>set post. sentenceScore toLowerCase ts x \<le> sentenceScore toLowerCase ts r)"
      then obtain pre post where p: "rest = pre @ r # post"
          "sentenceScore toLowerCase ts s < sentenceScore toLowerCase ts r"
          "\<forall>x\<in>set pre. sentenceScore toLowerCase ts x < sentenceScore toLowerCase ts r"
          "\<forall>x\<in>set post. sentenceScore toLowerCase ts x \<le> sentenceScore toLowerCase ts r"
        by blast
      then have "s # rest = (s # pre) @ r # post \<and> sentenceScore toLowerCase ts b < sentenceScore toLowerCase ts r
           \<and> (\<forall>x\<in>set (s # pre). sentenceScore toLowerCase ts x < sentenceScore toLowerCase ts r)
           \<and> (\<forall>x\<in>set post. sentenceScore toLowerCase ts x \<le> sentenceScore toLowerCase ts r)"
        using True by auto
      then show ?thesis by blast
    qed
  next
    case False
    with Cons.prems have "bestLoop toLowerCase ts b (sentenceScore toLowerCase ts b) rest = r" by simp
    from Cons.IH [OF this] show ?thesis
    proof
      assume "r = b \<and> (\<forall>x\<in>set rest. sentenceScore toLowerCase ts x \<le> sentenceScore toLowerCase ts b)"
      then show ?thesis using False by auto
    next
      assume "\<exists>pre post. rest = pre @ r # post \<and> sentenceScore toLowerCase ts b < sentenceScore toLowerCase ts r
           \<and> (\<forall>x\<in>set pre. sentenceScore toLowerCase ts x < sentenceScore toLowerCase ts r)
           \<and> (\<forall>x\<in>set post. sentenceScore toLowerCase ts x \<le> sentenceScore toLowerCase ts r)"
      then obtain pre post where p: "rest = pre @ r # post"
          "sentenceScore toLowerCase ts b < sentenceScore toLowerCase ts r"
          "\<forall>x\<in>set pre. sentenceScore toLowerCase ts x < sentenceScore toLowerCase ts r"
          "\<forall>x\<in>set post. sentenceScore toLowerCase ts x \<le> sentenceScore toLowerCase ts r"
        by blast
      then have "s # rest = (s # pre) @ r # post \<and> sentenceScore toLowerCase ts b < sentenceScore toLowerCase ts r
           \<and> (\<forall>x\<in>set (s # pre). sentenceScore toLowerCase ts x < sentenceScore toLowerCase ts r)
           \<and> (\<forall>x\<in>set post. sentenceScore toLowerCase ts x \<le> sentenceScore toLowerCase ts r)"
        using False by auto
      then show ?thesis by blast
    qed
  qed
qed

lemma bestLoop_first:
  "bestLoop toLowerCase ts s 0 (s # rest) = bestLoop toLowerCase ts s (sentenceScore toLowerCase ts s) rest"
  by simp

text \<open>
  C7, as the code has it. The hit-count of a sentence is the number of whitespace tokens
  of the lowercased query, each counted as often as it stands in the query, that occur in
  the lowercased sentence. \<open>createExcerpt\<close> chooses the earliest sentence whose hit-count
  is maximal: every sentence before it has a smaller hit-count and none after it has a
  larger one. This is the first sentence when no sentence scores above zero. A document
  without sentences gives the empty string.
\<close>

theorem excerpt_chooses_earliest_maximal:
  fixes content query :: jsstring and toLowerCase :: lowering
  defines "hits \<equiv> (\<lambda>s. length (filter (\<lambda>term. includesStr (toLowerCase s) term)
                                  (excerptTerms toLowerCase query)))"
  shows "(sentencesOf content = [] \<longrightarrow> chosenSentence toLowerCase content query = [])
   \<and> (sentencesOf content \<noteq> [] \<longrightarrow>
        (\<exists>pre post. sentencesOf content = pre @ chosenSentence toLowerCase content query # post
           \<and> (\<forall>s\<in>set pre. hits s < hits (chosenSentence toLowerCase content query))
           \<and> (\<forall>s\<in>set post. hits s \<le> hits (chosenSentence toLowerCase content query))))"
proof (cases "sentencesOf content")
  case Nil
  then show ?thesis by (simp add: chosenSentence_def)
next
  case (Cons s rest)
  let ?ts = "excerptTerms toLowerCase query"
  let ?r = "chosenSentence toLowerCase content query"
  have h: "hits = sentenceScore toLowerCase ?ts"
    by (rule ext) (simp add: hits_def sentenceScore_count)
  have r: "bestLoop toLowerCase ?ts s (sentenceScore toLowerCase ?ts s) rest = ?r"
    using Cons by (simp add: chosenSentence_def del: bestLoop.simps add: bestLoop_first)
  from bestLoop_earliest_max [OF r]
  have "\<exists>pre post. s # rest = pre @ ?r # post
           \<and> (\<forall>x\<in>set pre. sentenceScore toLowerCase ?ts x < sentenceScore toLowerCase ?ts ?r)
           \<and> (\<forall>x\<in>set post. sentenceScore toLowerCase ?ts x \<le> sentenceScore toLowerCase ?ts ?r)"
  proof
    assume a: "?r = s \<and> (\<forall>x\<in>set rest. sentenceScore toLowerCase ?ts x \<le> sentenceScore toLowerCase ?ts s)"
    then have "s # rest = [] @ ?r # rest
           \<and> (\<forall>x\<in>set []. sentenceScore toLowerCase ?ts x < sentenceScore toLowerCase ?ts ?r)
           \<and> (\<forall>x\<in>set rest. sentenceScore toLowerCase ?ts x \<le> sentenceScore toLowerCase ?ts ?r)"
      by simp
    then show ?thesis by blast
  next
    assume "\<exists>pre post. rest = pre @ ?r # post \<and> sentenceScore toLowerCase ?ts s < sentenceScore toLowerCase ?ts ?r
           \<and> (\<forall>x\<in>set pre. sentenceScore toLowerCase ?ts x < sentenceScore toLowerCase ?ts ?r)
           \<and> (\<forall>x\<in>set post. sentenceScore toLowerCase ?ts x \<le> sentenceScore toLowerCase ?ts ?r)"
    then obtain pre post where p: "rest = pre @ ?r # post"
          "sentenceScore toLowerCase ?ts s < sentenceScore toLowerCase ?ts ?r"
          "\<forall>x\<in>set pre. sentenceScore toLowerCase ?ts x < sentenceScore toLowerCase ?ts ?r"
          "\<forall>x\<in>set post. sentenceScore toLowerCase ?ts x \<le> sentenceScore toLowerCase ?ts ?r"
      by blast
    then have "s # rest = (s # pre) @ ?r # post
           \<and> (\<forall>x\<in>set (s # pre). sentenceScore toLowerCase ?ts x < sentenceScore toLowerCase ?ts ?r)
           \<and> (\<forall>x\<in>set post. sentenceScore toLowerCase ?ts x \<le> sentenceScore toLowerCase ?ts ?r)"
      by auto
    then show ?thesis by blast
  qed
  then show ?thesis using Cons h by simp
qed

theorem excerpt_chooses_earliest_maximal_witness:
  "sentencesOf (codeUnits ''bar. foo.'') = [codeUnits ''bar'', codeUnits ''foo'']
   \<and> chosenSentence asciiLowerCase (codeUnits ''bar. foo.'') (codeUnits ''foo foo bar'') = codeUnits ''foo''
   \<and> (\<exists>pre post. sentencesOf (codeUnits ''bar. foo.'')
                     = pre @ chosenSentence asciiLowerCase (codeUnits ''bar. foo.'') (codeUnits ''foo foo bar'') # post)
   \<and> chosenSentence asciiLowerCase (codeUnits ''...'') (codeUnits ''foo'') = []"
proof -
  have s: "sentencesOf (codeUnits ''bar. foo.'') = [codeUnits ''bar'', codeUnits ''foo'']"
    by (simp add: eval_defs)
  have c: "chosenSentence asciiLowerCase (codeUnits ''bar. foo.'') (codeUnits ''foo foo bar'') = codeUnits ''foo''"
    by (simp add: eval_defs)
  have e: "sentencesOf (codeUnits ''...'') = []"
    by (simp add: eval_defs)
  have n: "sentencesOf (codeUnits ''bar. foo.'') \<noteq> []" using s by simp
  show ?thesis
    using excerpt_chooses_earliest_maximal
            [where content = "codeUnits ''bar. foo.''" and query = "codeUnits ''foo foo bar''"
               and toLowerCase = asciiLowerCase]
      excerpt_chooses_earliest_maximal
            [where content = "codeUnits ''...''" and query = "codeUnits ''foo''"
               and toLowerCase = asciiLowerCase] s c e n
    by blast
qed

text \<open>
  As the specification words it, with distinct tokens, the claim fails: for the query
  \<open>foo foo bar\<close> both sentences of \<open>bar. foo.\<close> contain one distinct token, so the
  earliest, \<open>bar\<close>, would be chosen; the code counts \<open>foo\<close> twice and returns \<open>foo\<close>.
\<close>

theorem excerpt_distinct_counterexample:
  "chosenSentence asciiLowerCase (codeUnits ''bar. foo.'') (codeUnits ''foo foo bar'')
     = codeUnits ''foo''
   \<and> specChosenSentence asciiLowerCase (codeUnits ''bar. foo.'') (codeUnits ''foo foo bar'')
       = codeUnits ''bar''
   \<and> createExcerpt asciiLowerCase (codeUnits ''bar. foo.'') (codeUnits ''foo foo bar'') 200
       \<noteq> specChosenSentence asciiLowerCase (codeUnits ''bar. foo.'')
            (codeUnits ''foo foo bar'')"
  by (simp add: eval_defs specChosenSentence_def specHitCount_def)

text \<open>
  C8, as the code has it. The excerpt is the chosen sentence unchanged when its length is
  at most \<open>maxLength\<close>, and otherwise its first \<open>maxLength - 3\<close> characters (none when
  \<open>maxLength < 3\<close>) followed by three dots. Its length is at most \<open>maxLength\<close> whenever
  \<open>maxLength\<close> is at least 3.
\<close>

theorem excerpt_truncation:
  "(int (length (chosenSentence toLowerCase content query)) \<le> maxLength \<longrightarrow>
      createExcerpt toLowerCase content query maxLength = chosenSentence toLowerCase content query)
   \<and> (maxLength < int (length (chosenSentence toLowerCase content query)) \<longrightarrow>
      createExcerpt toLowerCase content query maxLength
        = take (nat (maxLength - 3)) (chosenSentence toLowerCase content query) @ codeUnits ''...'')
   \<and> (3 \<le> maxLength \<longrightarrow> int (length (createExcerpt toLowerCase content query maxLength)) \<le> maxLength)"
  by (auto simp: createExcerpt_def substring0_def Let_def codeUnits_def)

theorem excerpt_truncation_witness:
  "chosenSentence asciiLowerCase (codeUnits ''abcdefghij. k'') (codeUnits ''x'') = codeUnits ''abcdefghij''
   \<and> createExcerpt asciiLowerCase (codeUnits ''abcdefghij. k'') (codeUnits ''x'') 5 = codeUnits ''ab...''
   \<and> createExcerpt asciiLowerCase (codeUnits ''abcdefghij. k'') (codeUnits ''x'') 10 = codeUnits ''abcdefghij''"
proof -
  have c: "chosenSentence asciiLowerCase (codeUnits ''abcdefghij. k'') (codeUnits ''x'') = codeUnits ''abcdefghij''"
    by (simp add: eval_defs)
  show ?thesis
    using excerpt_truncation
            [where toLowerCase = asciiLowerCase and content = "codeUnits ''abcdefghij. k''"
               and query = "codeUnits ''x''" and maxLength = 5]
      excerpt_truncation
            [where toLowerCase = asciiLowerCase and content = "codeUnits ''abcdefghij. k''"
               and query = "codeUnits ''x''" and maxLength = 10] c
    by (simp add: codeUnits_def)
qed

text \<open>
  For \<open>maxLength = 2\<close> the three dots alone are longer than \<open>maxLength\<close>.
\<close>

theorem excerpt_length_counterexample:
  "\<not> int (length (createExcerpt asciiLowerCase (codeUnits ''abcdef'') (codeUnits ''x'') 2)) \<le> 2"
  by (simp add: eval_defs)

section \<open>Failures\<close>

lemma searchSimilar_failure:
  assumes "(\<exists>e. embeddingsCreate adapter query = Inl e)
     \<or> (\<exists>e v. generateEmbedding adapter query = Inr v \<and> indexQuery adapter v k = Inl e)"
  shows "searchSimilar adapter query k = []"
  using assms by (auto simp: searchSimilar_def generateEmbedding_def split: sum.splits)

lemma searchCases_without_hits:
  assumes "searchSimilar adapter query (limitOf options * 2) = []"
  shows "vectorEntries toLowerCase adapter allCases query options = []
     \<and> searchCases toLowerCase engine adapter allCases query options
        = (case performKeywordSearch toLowerCase engine (filterCases options allCases) query of
             Inl e \<Rightarrow> []
           | Inr keywordMatches \<Rightarrow>
               slice0 (sortDescending
                         (Map_values (keywordLoop (limitOf options) [] keywordMatches)))
                 (limitOf options))"
proof -
  have v: "vectorEntries toLowerCase adapter allCases query options = []"
    using assms by (simp add: vectorEntries_def)
  then have k: "keywordCandidates toLowerCase adapter allCases query options
                  = filterCases options allCases"
    by (simp add: keywordCandidates_def Map_has_def)
  show ?thesis
    using v k by (simp add: searchCases_def searchBody_def resultMap_def split: sum.splits)
qed

text \<open>
  C1, as the code has it. When the embedding call or the index query fails,
  \<open>searchSimilar\<close> catches the error and yields no vector hits, and the result map
  receives no vector result. \<open>searchCases\<close> goes on with the keyword search over all
  filtered documents; when that search completes, \<open>searchCases\<close> returns the keyword
  matches that were inserted while the map held fewer than \<open>limit\<close> entries, sorted by
  descending score and sliced to \<open>limit\<close>.
\<close>

theorem adapter_failure_keyword_only:
  assumes "(\<exists>e. embeddingsCreate adapter query = Inl e)
     \<or> (\<exists>e v. generateEmbedding adapter query = Inr v
            \<and> indexQuery adapter v (limitOf options * 2) = Inl e)"
  shows "searchSimilar adapter query (limitOf options * 2) = []
     \<and> vectorEntries toLowerCase adapter allCases query options = []
     \<and> (\<forall>keywordMatches.
           performKeywordSearch toLowerCase engine (filterCases options allCases) query
             = Inr keywordMatches \<longrightarrow>
           searchCases toLowerCase engine adapter allCases query options
             = slice0 (sortDescending
                         (Map_values (keywordLoop (limitOf options) [] keywordMatches)))
                 (limitOf options))"
proof -
  have s: "searchSimilar adapter query (limitOf options * 2) = []"
    using assms by (rule searchSimilar_failure)
  show ?thesis
    using s searchCases_without_hits [OF s, of toLowerCase allCases engine] by simp
qed

text \<open>
  With the embedding call failing, and with the index query failing, the query \<open>auth\<close>
  returns the document \<open>b\<close>, found by its keywords.
\<close>

theorem adapter_failure_keyword_only_witness:
  "searchSimilar embeddingDown (codeUnits ''auth'') (limitOf noOptions * 2) = []
   \<and> searchSimilar indexDown (codeUnits ''auth'') (limitOf noOptions * 2) = []
   \<and> (\<exists>keywordMatches.
         performKeywordSearch asciiLowerCase noEngine (filterCases noOptions [docB])
           (codeUnits ''auth'') = Inr keywordMatches
         \<and> searchCases asciiLowerCase noEngine embeddingDown [docB] (codeUnits ''auth'')
             noOptions
             = slice0 (sortDescending
                         (Map_values (keywordLoop (limitOf noOptions) [] keywordMatches)))
                 (limitOf noOptions))
   \<and> map resultId
         (searchCases asciiLowerCase noEngine embeddingDown [docB] (codeUnits ''auth'')
            noOptions) = [codeUnits ''b'']
   \<and> map resultId
         (searchCases asciiLowerCase noEngine indexDown [docB] (codeUnits ''auth'')
            noOptions) = [codeUnits ''b'']"
proof -
  let ?q = "codeUnits ''auth''"
  let ?K = "performKeywordSearch asciiLowerCase noEngine (filterCases noOptions [docB]) ?q"
  have 1: "\<exists>e. embeddingsCreate embeddingDown ?q = Inl e"
    by (simp add: embeddingDown_def)
  have 2: "\<exists>e v. generateEmbedding indexDown ?q = Inr v
             \<and> indexQuery indexDown v (limitOf noOptions * 2) = Inl e"
    by (simp add: indexDown_def generateEmbedding_def)
  note a = adapter_failure_keyword_only
             [where adapter = embeddingDown and query = ?q and options = noOptions
                and toLowerCase = asciiLowerCase and engine = noEngine and allCases = "[docB]"]
  note b = adapter_failure_keyword_only
             [where adapter = indexDown and query = ?q and options = noOptions
                and toLowerCase = asciiLowerCase and engine = noEngine and allCases = "[docB]"]
  have ra: "map resultId
              (searchCases asciiLowerCase noEngine embeddingDown [docB] ?q noOptions)
              = [codeUnits ''b'']"
    by (simp add: eval_defs docB_def embeddingDown_def noEngine_def noOptions_def)
  have rb: "map resultId
              (searchCases asciiLowerCase noEngine indexDown [docB] ?q noOptions)
              = [codeUnits ''b'']"
    by (simp add: eval_defs docB_def indexDown_def noEngine_def noOptions_def)
  have sa: "searchSimilar embeddingDown ?q (limitOf noOptions * 2) = []"
    using a 1 by blast
  have sb: "searchSimilar indexDown ?q (limitOf noOptions * 2) = []"
    using b 2 by blast
  obtain kw where kw: "?K = Inr kw"
  proof (cases ?K)
    case (Inl e)
    then have "searchCases asciiLowerCase noEngine embeddingDown [docB] ?q noOptions = []"
      using searchCases_without_hits [OF sa, of asciiLowerCase "[docB]" noEngine] by simp
    with ra show ?thesis by simp
  next
    case (Inr r)
    with that show ?thesis .
  qed
  have ea: "searchCases asciiLowerCase noEngine embeddingDown [docB] ?q noOptions
              = slice0 (sortDescending
                          (Map_values (keywordLoop (limitOf noOptions) [] kw)))
                  (limitOf noOptions)"
    using a 1 kw by blast
  show ?thesis
    by (intro conjI sa sb exI [of _ kw] kw ea ra rb)
qed

text \<open>
  As the specification words it, the claim fails: with the embedding service down, the
  query \<open>auth\<close> still finds the document \<open>b\<close> by its keywords.
\<close>

theorem adapter_failure_counterexample:
  "embeddingsCreate embeddingDown (codeUnits ''auth'') = Inl EmbeddingError
   \<and> searchCases asciiLowerCase noEngine embeddingDown [docB] (codeUnits ''auth'') noOptions \<noteq> []"
  by (simp add: eval_defs docB_def embeddingDown_def noEngine_def noOptions_def)

lemma unbalanced_group_throws: "regExpMatchCount engine (codeUnits ''((('') = Inl SyntaxError"
  by (simp add: regExpMatchCount_def literalPattern_def isSyntaxCharacter_def
      endAnchoredLiteral_def onlyGroupSyntax_def codeUnits_def)

lemma scoreLoop_throws:
  "t \<in> set terms \<Longrightarrow> regExpMatchCount engine t = Inl e0 \<Longrightarrow>
     \<exists>e. scoreLoop toLowerCase engine c s terms = Inl e"
proof (induction terms arbitrary: s)
  case Nil
  then show ?case by simp
next
  case (Cons u terms)
  show ?case
  proof (cases "regExpMatchCount engine u")
    case (Inl e)
    then show ?thesis by (simp add: Let_def)
  next
    case (Inr f)
    with Cons.prems have "t \<in> set terms" by auto
    from Cons.IH [OF this Cons.prems(2)] show ?thesis
      using Inr by (simp add: Let_def)
  qed
qed

lemma scoreCases_throws:
  "cases \<noteq> [] \<Longrightarrow> t \<in> set (keywordTerms toLowerCase query) \<Longrightarrow> regExpMatchCount engine t = Inl e0 \<Longrightarrow>
     \<exists>e. scoreCases toLowerCase engine query cases = Inl e"
proof (cases cases)
  case Nil
  assume "cases \<noteq> []"
  with Nil show ?thesis by simp
next
  case (Cons c rest)
  assume "t \<in> set (keywordTerms toLowerCase query)" and "regExpMatchCount engine t = Inl e0"
  then obtain e where "keywordScore toLowerCase engine query c = Inl e"
    unfolding keywordScore_def using scoreLoop_throws by blast
  then show ?thesis using Cons by simp
qed

text \<open>
  C10. A query with the token \<open>(((\<close> makes \<open>new RegExp\<close> throw as soon as one document
  is left for the keyword search; the \<open>catch\<close> of \<open>searchCases\<close> turns the error into
  the empty list, whatever the documents contain.
\<close>

theorem unbalanced_group_term_empties_search:
  assumes "(codeUnits ''((('') \<in> set (keywordTerms toLowerCase query)"
      and "keywordCandidates toLowerCase adapter allCases query options \<noteq> []"
  shows "(\<exists>e. searchBody toLowerCase engine adapter allCases query options = Inl e)
     \<and> searchCases toLowerCase engine adapter allCases query options = []"
proof -
  obtain e where "scoreCases toLowerCase engine query (keywordCandidates toLowerCase adapter allCases query options)
                    = Inl e"
    using scoreCases_throws [OF assms(2) assms(1) unbalanced_group_throws] by blast
  then show ?thesis
    by (simp add: searchCases_def searchBody_def resultMap_def performKeywordSearch_def)
qed

text \<open>
  The title of \<open>docC\<close> contains the token as a literal substring; the search for it
  returns nothing.
\<close>

theorem unbalanced_group_term_empties_search_witness:
  "keywordTerms asciiLowerCase (codeUnits ''((('') = [codeUnits ''((('']
   \<and> includesStr (asciiLowerCase (caseTitle docC)) (codeUnits ''((('')
   \<and> keywordCandidates asciiLowerCase embeddingDown [docC] (codeUnits ''((('') noOptions = [docC]
   \<and> searchCases asciiLowerCase lenientEngine embeddingDown [docC] (codeUnits ''((('') noOptions = []"
proof -
  have 1: "keywordTerms asciiLowerCase (codeUnits ''((('') = [codeUnits ''((('']"
    by (simp add: eval_defs)
  have 2: "includesStr (asciiLowerCase (caseTitle docC)) (codeUnits ''((('')"
    by (simp add: eval_defs docC_def)
  have 3: "keywordCandidates asciiLowerCase embeddingDown [docC] (codeUnits ''((('') noOptions = [docC]"
    by (simp add: eval_defs docC_def embeddingDown_def noOptions_def)
  show ?thesis
    using unbalanced_group_term_empties_search
            [where toLowerCase = asciiLowerCase and query = "codeUnits ''(((''"
               and adapter = embeddingDown and allCases = "[docC]" and options = noOptions
               and engine = lenientEngine] 1 2 3
    by simp
qed

section \<open>Duplicate vector hits\<close>

lemma map_of_Map_set: "map_of (Map_set m k v) k' = (if k' = k then Some v else map_of m k')"
  by (induction m) auto

lemma keys_Map_set: "set (map fst (Map_set m k v)) = insert k (set (map fst m))"
  by (induction m k v rule: Map_set.induct) (simp_all add: insert_commute)

lemma values_Map_set: "set (map snd (Map_set m k v)) \<subseteq> insert v (set (map snd m))"
  by (induction m k v rule: Map_set.induct) (simp_all add: subset_insertI2 insert_mono insert_commute)

lemma distinct_Map_set: "distinct (map fst m) \<Longrightarrow> distinct (map fst (Map_set m k v))"
proof (induction m)
  case Nil
  then show ?case by simp
next
  case (Cons p m)
  obtain k' v' where p: "p = (k', v')" by (cases p)
  have "k' \<noteq> k \<Longrightarrow> k' \<notin> set (map fst (Map_set m k v))"
    using Cons.prems p by (simp only: keys_Map_set) auto
  then show ?case using Cons p by auto
qed

lemma Map_set_new: "k \<notin> set (map fst m) \<Longrightarrow> Map_set m k v = m @ [(k, v)]"
  by (induction m) auto

lemma vectorLoop_append:
  "vectorLoop toLowerCase F q m (xs @ ys) = vectorLoop toLowerCase F q (vectorLoop toLowerCase F q m xs) ys"
  by (induction xs arbitrary: m) (auto split: option.splits)

lemma find_caseId: "find (\<lambda>c. caseId c = k) F = Some c \<Longrightarrow> caseId c = k \<and> c \<in> set F"
  by (induction F) (auto split: if_splits)

lemma vectorLoop_other:
  "\<forall>h\<in>set hits. hitId h \<noteq> k \<Longrightarrow> map_of (vectorLoop toLowerCase F q m hits) k = map_of m k"
proof (induction hits arbitrary: m)
  case Nil
  then show ?case by simp
next
  case (Cons h hits)
  then have ne: "hitId h \<noteq> k" and rest: "\<forall>h\<in>set hits. hitId h \<noteq> k" by auto
  show ?case
  proof (cases "find (\<lambda>c. caseId c = hitId h) F")
    case None
    then show ?thesis using Cons.IH [OF rest] by simp
  next
    case (Some c)
    then have "caseId c = hitId h" using find_caseId by blast
    then show ?thesis using Some Cons.IH [OF rest] ne by (simp add: map_of_Map_set)
  qed
qed

lemma vectorLoop_last_wins:
  assumes "hits = pre @ h # post"
      and "\<forall>h'\<in>set post. hitId h' \<noteq> hitId h"
      and "find (\<lambda>c. caseId c = hitId h) F = Some c"
  shows "map_of (vectorLoop toLowerCase F q m hits) (hitId h) = Some (vectorResult toLowerCase q c h)"
proof -
  have id: "caseId c = hitId h" using assms(3) find_caseId by blast
  have "vectorLoop toLowerCase F q m hits
          = vectorLoop toLowerCase F q (Map_set (vectorLoop toLowerCase F q m pre) (caseId c) (vectorResult toLowerCase q c h)) post"
    using assms(1,3) by (simp add: vectorLoop_append)
  then show ?thesis
    using vectorLoop_other [OF assms(2)] id by (simp add: map_of_Map_set)
qed

lemma vectorLoop_distinct:
  "distinct (map fst m) \<Longrightarrow> distinct (map fst (vectorLoop toLowerCase F q m hits))"
  by (induction hits arbitrary: m) (auto split: option.splits simp: distinct_Map_set)

lemma keywordLoop_distinct:
  "distinct (map fst m) \<Longrightarrow> distinct (map fst (keywordLoop L m kw))"
  by (induction kw arbitrary: m) (auto simp: distinct_Map_set)

lemma keywordLoop_other:
  "k \<notin> resultId ` set kw \<Longrightarrow> map_of (keywordLoop L m kw) k = map_of m k"
  by (induction kw arbitrary: m) (auto simp: map_of_Map_set)

lemma scoreCases_ids:
  "scoreCases toLowerCase engine q cases = Inr rs \<Longrightarrow> map resultId rs = map caseId cases"
  by (induction cases arbitrary: rs) (auto split: sum.splits simp: keywordResult_def)

lemma set_sortDescending [simp]: "set (sortDescending rs) = set rs"
  by (simp add: sortDescending_def)

lemma performKeywordSearch_ids:
  "performKeywordSearch toLowerCase engine cases q = Inr kw \<Longrightarrow> resultId ` set kw \<subseteq> caseId ` set cases"
proof -
  assume a: "performKeywordSearch toLowerCase engine cases q = Inr kw"
  then obtain rs where rs: "scoreCases toLowerCase engine q cases = Inr rs"
    and kw: "kw = sortDescending (filter (\<lambda>r. relevanceScore r > 0) rs)"
    by (auto simp: performKeywordSearch_def split: sum.splits)
  have "resultId ` set rs = caseId ` set cases"
    using scoreCases_ids [OF rs] by (metis set_map)
  then show ?thesis using kw by auto
qed

text \<open>
  C6, as the code has it. \<open>results.set\<close> is called for every vector hit whose id is in
  the filtered document set, with no test for a key already present. When several hits
  share such an id, the map holds one entry for the id, and its value is the result built
  from the last of these hits, with that hit's score; the keyword phase leaves the entry
  as it is.
\<close>

theorem duplicate_hit_last_wins:
  assumes "searchSimilar adapter query (limitOf options * 2) = pre @ h # post"
      and "\<forall>h'\<in>set post. hitId h' \<noteq> hitId h"
      and "find (\<lambda>c. caseId c = hitId h) (filterCases options allCases) = Some c"
  shows "Map_get (vectorEntries toLowerCase adapter allCases query options) (hitId h)
           = Some (vectorResult toLowerCase query c h)
     \<and> relevanceScore (vectorResult toLowerCase query c h) = hitScore h
     \<and> distinct (map fst (vectorEntries toLowerCase adapter allCases query options))
     \<and> (\<forall>results. resultMap toLowerCase engine adapter allCases query options = Inr results \<longrightarrow>
           Map_get results (hitId h) = Some (vectorResult toLowerCase query c h)
           \<and> distinct (map fst results))"
proof -
  let ?V = "vectorEntries toLowerCase adapter allCases query options"
  have v: "map_of ?V (hitId h) = Some (vectorResult toLowerCase query c h)"
    unfolding vectorEntries_def
    by (rule vectorLoop_last_wins [OF assms(1) assms(2) assms(3)])
  have d: "distinct (map fst ?V)"
    unfolding vectorEntries_def by (rule vectorLoop_distinct) simp
  have "Map_get results (hitId h) = Some (vectorResult toLowerCase query c h) \<and> distinct (map fst results)"
    if r: "resultMap toLowerCase engine adapter allCases query options = Inr results" for results
  proof -
    from r obtain kw where
      kw: "performKeywordSearch toLowerCase engine (keywordCandidates toLowerCase adapter allCases query options) query
             = Inr kw"
      and res: "results = keywordLoop (limitOf options) ?V kw"
      by (auto simp: resultMap_def split: sum.splits)
    have inV: "Map_has ?V (hitId h)"
      unfolding Map_has_def using v by (metis map_of_eq_None_iff option.distinct(1) set_map)
    have "\<forall>x\<in>set (keywordCandidates toLowerCase adapter allCases query options). caseId x \<noteq> hitId h"
    proof (intro ballI notI)
      fix x
      assume x: "x \<in> set (keywordCandidates toLowerCase adapter allCases query options)"
        and e: "caseId x = hitId h"
      from x have "\<not> Map_has ?V (caseId x)" by (simp add: keywordCandidates_def)
      with inV e show False by simp
    qed
    then have "hitId h \<notin> caseId ` set (keywordCandidates toLowerCase adapter allCases query options)"
      by (auto simp: image_iff)
    then have "hitId h \<notin> resultId ` set kw"
      using performKeywordSearch_ids [OF kw] by blast
    then show ?thesis
      using res v d by (simp add: Map_get_def keywordLoop_other keywordLoop_distinct)
  qed
  then show ?thesis using v d by (simp add: Map_get_def vectorResult_def)
qed

theorem duplicate_hit_last_wins_witness:
  "searchSimilar twoHits (codeUnits ''bug'') (limitOf noOptions * 2)
     = [\<lparr>hitId = codeUnits ''c'', hitScore = 9 / 10\<rparr>, \<lparr>hitId = codeUnits ''c'', hitScore = 1 / 10\<rparr>]
   \<and> Map_get (vectorEntries asciiLowerCase twoHits [docC] (codeUnits ''bug'') noOptions) (codeUnits ''c'')
       = Some (vectorResult asciiLowerCase (codeUnits ''bug'') docC \<lparr>hitId = codeUnits ''c'', hitScore = 1 / 10\<rparr>)
   \<and> map relevanceScore (searchCases asciiLowerCase noEngine twoHits [docC] (codeUnits ''bug'') noOptions) = [1 / 10]"
proof -
  have 1: "searchSimilar twoHits (codeUnits ''bug'') (limitOf noOptions * 2)
     = [\<lparr>hitId = codeUnits ''c'', hitScore = 9 / 10\<rparr>] @ \<lparr>hitId = codeUnits ''c'', hitScore = 1 / 10\<rparr> # []"
    by (simp add: searchSimilar_def generateEmbedding_def twoHits_def)
  have 2: "find (\<lambda>c. caseId c = hitId \<lparr>hitId = codeUnits ''c'', hitScore = 1 / 10\<rparr>)
             (filterCases noOptions [docC]) = Some docC"
    by (simp add: filterCases_def provided_def noOptions_def docC_def)
  have 3: "map relevanceScore (searchCases asciiLowerCase noEngine twoHits [docC] (codeUnits ''bug'') noOptions) = [1 / 10]"
    by (simp add: eval_defs docC_def twoHits_def noEngine_def noOptions_def)
  show ?thesis
    using duplicate_hit_last_wins [OF 1 _ 2, where engine = noEngine] 1 3 by simp
qed

text \<open>
  As the specification words it, the claim fails: for the hits \<open>(c, 0.9)\<close> and
  \<open>(c, 0.1)\<close> the map holds the score \<open>0.1\<close> of the second hit, not the result built from
  the first.
\<close>

theorem duplicate_hit_first_counterexample:
  "searchSimilar twoHits (codeUnits ''bug'') (limitOf noOptions * 2)
     = [\<lparr>hitId = codeUnits ''c'', hitScore = 9 / 10\<rparr>, \<lparr>hitId = codeUnits ''c'', hitScore = 1 / 10\<rparr>]
   \<and> Map_get (vectorEntries asciiLowerCase twoHits [docC] (codeUnits ''bug'') noOptions) (codeUnits ''c'')
       \<noteq> Some (vectorResult asciiLowerCase (codeUnits ''bug'') docC \<lparr>hitId = codeUnits ''c'', hitScore = 9 / 10\<rparr>)
   \<and> map relevanceScore (Map_values (vectorEntries asciiLowerCase twoHits [docC] (codeUnits ''bug'') noOptions)) = [1 / 10]"
  by (simp add: eval_defs docC_def twoHits_def noOptions_def Map_get_def)

section \<open>Filters\<close>

lemma filterCases_member:
  "c \<in> set (filterCases options allCases) \<Longrightarrow>
     c \<in> set allCases
     \<and> (provided (optCategory options) \<longrightarrow> caseCategory c = the (optCategory options))
     \<and> (provided (optDifficulty options) \<longrightarrow> caseDifficulty c = the (optDifficulty options))"
  by (auto simp: filterCases_def Let_def split: if_splits)

lemma keywordLoop_values:
  "set (map snd (keywordLoop L m kw)) \<subseteq> set (map snd m) \<union> set kw"
proof (induction kw arbitrary: m)
  case Nil
  then show ?case by simp
next
  case (Cons r kw)
  show ?case
  proof (cases "of_nat (Map_size m) < L")
    case True
    have "set (map snd (keywordLoop L (Map_set m (resultId r) r) kw))
            \<subseteq> set (map snd (Map_set m (resultId r) r)) \<union> set kw"
      by (rule Cons.IH)
    also have "\<dots> \<subseteq> insert r (set (map snd m)) \<union> set kw"
      using values_Map_set [of m "resultId r" r] by blast
    finally show ?thesis using True by auto
  next
    case False
    then show ?thesis using Cons.IH [of m] by auto
  qed
qed

lemma vectorLoop_values:
  "\<forall>r\<in>set (map snd m). \<exists>c\<in>set F. builtFrom c r \<Longrightarrow>
     \<forall>r\<in>set (map snd (vectorLoop toLowerCase F q m hits)). \<exists>c\<in>set F. builtFrom c r"
proof (induction hits arbitrary: m)
  case Nil
  then show ?case by simp
next
  case (Cons h hits)
  show ?case
  proof (cases "find (\<lambda>c. caseId c = hitId h) F")
    case None
    then show ?thesis using Cons.IH [OF Cons.prems] by simp
  next
    case (Some c)
    then have c: "c \<in> set F" using find_caseId by blast
    have b: "builtFrom c (vectorResult toLowerCase q c h)"
      by (simp add: builtFrom_def vectorResult_def)
    have "\<forall>r\<in>set (map snd (Map_set m (caseId c) (vectorResult toLowerCase q c h))).
            \<exists>c\<in>set F. builtFrom c r"
    proof
      fix r
      assume "r \<in> set (map snd (Map_set m (caseId c) (vectorResult toLowerCase q c h)))"
      then have "r = vectorResult toLowerCase q c h \<or> r \<in> set (map snd m)"
        using values_Map_set [of m "caseId c" "vectorResult toLowerCase q c h"] by blast
      then show "\<exists>c\<in>set F. builtFrom c r"
        using b c Cons.prems by blast
    qed
    from Cons.IH [OF this] show ?thesis using Some by simp
  qed
qed

lemma scoreCases_built:
  "scoreCases toLowerCase engine q cases = Inr rs \<Longrightarrow> \<forall>r\<in>set rs. \<exists>c\<in>set cases. builtFrom c r"
  by (induction cases arbitrary: rs)
     (auto split: sum.splits simp: keywordResult_def builtFrom_def)

lemma performKeywordSearch_built:
  assumes "performKeywordSearch toLowerCase engine cases q = Inr kw"
  shows "\<forall>r\<in>set kw. \<exists>c\<in>set cases. builtFrom c r"
proof -
  from assms obtain rs where rs: "scoreCases toLowerCase engine q cases = Inr rs"
    and kw: "kw = sortDescending (filter (\<lambda>r. relevanceScore r > 0) rs)"
    by (auto simp: performKeywordSearch_def split: sum.splits)
  show ?thesis using scoreCases_built [OF rs] kw by simp
qed

lemma set_slice0: "set (slice0 xs e) \<subseteq> set xs"
  by (simp add: slice0_def Let_def set_take_subset)

text \<open>
  C5. Every result of \<open>searchCases\<close>, from a vector hit or from the keyword search, carries
  the id, title, category and tags of a document of the store whose category equals the
  requested category, when one is provided, and whose difficulty equals the requested
  difficulty, when one is provided. A filter is provided when it is present and not the
  empty string, which \<open>if (category)\<close> treats as absent.
\<close>

theorem search_results_match_filters:
  assumes "r \<in> set (searchCases toLowerCase engine adapter allCases query options)"
  shows "\<exists>c\<in>set allCases. builtFrom c r
     \<and> (provided (optCategory options) \<longrightarrow>
            caseCategory c = the (optCategory options)
            \<and> resultCategory r = the (optCategory options))
     \<and> (provided (optDifficulty options) \<longrightarrow>
            caseDifficulty c = the (optDifficulty options))"
proof -
  let ?F = "filterCases options allCases"
  let ?V = "vectorEntries toLowerCase adapter allCases query options"
  let ?C = "keywordCandidates toLowerCase adapter allCases query options"
  from assms obtain results where
    m: "resultMap toLowerCase engine adapter allCases query options = Inr results"
    and r: "r \<in> set (slice0 (sortDescending (Map_values results)) (limitOf options))"
    by (auto simp: searchCases_def searchBody_def split: sum.splits)
  from m obtain kw where kw: "performKeywordSearch toLowerCase engine ?C query = Inr kw"
    and res: "results = keywordLoop (limitOf options) ?V kw"
    by (auto simp: resultMap_def split: sum.splits)
  have "r \<in> set (map snd results)"
    using r set_slice0 [of "sortDescending (Map_values results)" "limitOf options"]
    by (auto simp: Map_values_def)
  then have "r \<in> set (map snd ?V) \<or> r \<in> set kw"
    using keywordLoop_values [of "limitOf options" ?V kw] res by blast
  moreover have "\<forall>r\<in>set (map snd ?V). \<exists>c\<in>set ?F. builtFrom c r"
    unfolding vectorEntries_def by (rule vectorLoop_values) simp
  moreover have "\<forall>r\<in>set kw. \<exists>c\<in>set ?F. builtFrom c r"
    using performKeywordSearch_built [OF kw] by (auto simp: keywordCandidates_def)
  ultimately obtain c where c: "c \<in> set ?F" and b: "builtFrom c r" by blast
  show ?thesis
    using filterCases_member [OF c] b by (auto simp: builtFrom_def)
qed

theorem search_results_match_filters_witness:
  "map resultId (searchCases asciiLowerCase noEngine embeddingDown [docA, docB] (codeUnits ''auth stripe'')
                   (noOptions\<lparr>optCategory := Some (codeUnits ''backend'')\<rparr>)) = [codeUnits ''b'']
   \<and> (\<exists>c\<in>set [docA, docB].
         builtFrom c (hd (searchCases asciiLowerCase noEngine embeddingDown [docA, docB] (codeUnits ''auth stripe'')
                            (noOptions\<lparr>optCategory := Some (codeUnits ''backend'')\<rparr>)))
         \<and> caseCategory c = codeUnits ''backend'')"
proof -
  let ?R = "searchCases asciiLowerCase noEngine embeddingDown [docA, docB] (codeUnits ''auth stripe'')
              (noOptions\<lparr>optCategory := Some (codeUnits ''backend'')\<rparr>)"
  have 1: "map resultId ?R = [codeUnits ''b'']"
    by (simp add: eval_defs docA_def docB_def embeddingDown_def noEngine_def noOptions_def)
  then have 2: "hd ?R \<in> set ?R" by (cases ?R) auto
  have 3: "provided (optCategory (noOptions\<lparr>optCategory := Some (codeUnits ''backend'')\<rparr>))"
    by (simp add: provided_def codeUnits_def)
  show ?thesis
    using search_results_match_filters [OF 2] 1 3 by auto
qed

section \<open>The keyword score\<close>

lemma literal_regExpMatchCount:
  "literalPattern t \<Longrightarrow> t \<noteq> [] \<Longrightarrow> regExpMatchCount engine t = Inr (literalMatches t)"
  by (auto simp: regExpMatchCount_def globalMatchCount_def)

lemma keywordTerms_nonempty: "t \<in> set (keywordTerms toLowerCase query) \<Longrightarrow> t \<noteq> []"
  by (auto simp: keywordTerms_def)

lemma scoreLoop_sum:
  "\<forall>t\<in>set terms. regExpMatchCount engine t = Inr (cnt t) \<Longrightarrow>
     scoreLoop toLowerCase engine c s terms
       = Inr (s + (\<Sum>t\<leftarrow>terms.
            (if includesStr (toLowerCase (caseTitle c)) t then 3 else 0)
            + (if \<exists>tag\<in>set (caseTags c). includesStr (toLowerCase tag) t then 2 else 0)
            + of_nat (cnt t (searchText toLowerCase c)) / 2))"
proof (induction terms arbitrary: s)
  case Nil
  then show ?case by simp
next
  case (Cons u terms)
  then have u: "regExpMatchCount engine u = Inr (cnt u)"
    and rest: "\<forall>t\<in>set terms. regExpMatchCount engine t = Inr (cnt t)" by auto
  show ?case
    by (simp add: u Cons.IH [OF rest] Let_def list_ex_iff add.assoc)
qed


lemma keywordScore_points:
  assumes "\<forall>t\<in>set (keywordTerms toLowerCase query). literalPattern t"
  shows "keywordScore toLowerCase engine query c
     = Inr (\<Sum>t\<leftarrow>keywordTerms toLowerCase query.
        (if includesStr (toLowerCase (caseTitle c)) t then 3 else 0)
        + (if \<exists>tag\<in>set (caseTags c). includesStr (toLowerCase tag) t then 2 else 0)
        + of_nat (literalMatches t (searchText toLowerCase c)) / 2)"
proof -
  have r: "\<forall>t\<in>set (keywordTerms toLowerCase query). regExpMatchCount engine t = Inr (literalMatches t)"
    using assms literal_regExpMatchCount keywordTerms_nonempty by blast
  show ?thesis
    unfolding keywordScore_def
    using scoreLoop_sum [OF r, where toLowerCase = toLowerCase and c = c and s = 0] by simp
qed




section \<open>Appending a token\<close>

lemma drop_append_le: "k \<le> length xs \<Longrightarrow> drop k (xs @ ys) = drop k xs @ ys"
  by simp

lemma literalMatches_short: "length xs < length n \<Longrightarrow> literalMatches n xs = 0"
proof (induction xs)
  case Nil
  then show ?case by simp
next
  case (Cons c cs)
  then have "\<not> prefix n (c # cs)" by (auto dest: prefix_length_le)
  then show ?case using Cons by simp
qed

lemma literalMatches_append_mono:
  "literalMatches n xs \<le> literalMatches n (xs @ ys)"
proof (induction n xs rule: literalMatches.induct)
  case (1 n)
  then show ?case by simp
next
  case (2 n c cs)
  show ?case
  proof (cases "n \<noteq> [] \<and> prefix n (c # cs)")
    case True
    then have p: "prefix n ((c # cs) @ ys)" using prefix_prefix [of n "c # cs" ys] by blast
    have "length n \<le> length (c # cs)" using True by (auto dest: prefix_length_le)
    then have d: "drop (length n) ((c # cs) @ ys) = drop (length n) (c # cs) @ ys"
      by (rule drop_append_le)
    show ?thesis using True p d "2.IH"(1) [OF True] by (simp del: drop_Suc_Cons)
  next
    case False
    note nf = False
    show ?thesis
    proof (cases "n \<noteq> [] \<and> prefix n ((c # cs) @ ys)")
      case True
      have "length (c # cs) < length n"
      proof (rule ccontr)
        assume "\<not> length (c # cs) < length n"
        then have "length n \<le> length (c # cs)" by simp
        with True have "prefix n (c # cs)"
          by (metis prefix_length_prefix Sublist.prefixI append.right_neutral prefix_order.order_refl prefix_prefix)
        with True nf show False by simp
      qed
      then have "literalMatches n (c # cs) = 0" by (rule literalMatches_short)
      then show ?thesis by simp
    next
      case False
      then show ?thesis using nf "2.IH"(2) [OF nf] by auto
    qed
  qed
qed

lemma literalMatches_append_self:
  "n \<noteq> [] \<Longrightarrow> literalMatches n (xs @ n) = Suc (literalMatches n xs)"
proof (induction n xs rule: literalMatches.induct)
  case (1 n)
  then obtain c cs where n: "n = c # cs" by (cases n) auto
  have "literalMatches n n = Suc (literalMatches n (drop (length n) n))"
    unfolding n by (simp del: drop_Suc_Cons)
  then show ?case by simp
next
  case (2 n c cs)
  show ?case
  proof (cases "n \<noteq> [] \<and> prefix n (c # cs)")
    case True
    then have p: "prefix n ((c # cs) @ n)" using prefix_prefix [of n "c # cs" n] by blast
    have "length n \<le> length (c # cs)" using True by (auto dest: prefix_length_le)
    then have d: "drop (length n) ((c # cs) @ n) = drop (length n) (c # cs) @ n"
      by (rule drop_append_le)
    show ?thesis using True p d "2.IH"(1) [OF True "2.prems"] by (simp del: drop_Suc_Cons)
  next
    case False
    note nf = False
    show ?thesis
    proof (cases "prefix n ((c # cs) @ n)")
      case True
      have short: "length (c # cs) < length n"
      proof (rule ccontr)
        assume "\<not> length (c # cs) < length n"
        then have "length n \<le> length (c # cs)" by simp
        with True have "prefix n (c # cs)"
          by (metis prefix_length_prefix Sublist.prefixI append.right_neutral prefix_order.order_refl prefix_prefix)
        with "2.prems" nf show False by simp
      qed
      then have z: "literalMatches n (c # cs) = 0" by (rule literalMatches_short)
      have "length (drop (length n) ((c # cs) @ n)) < length n" using short "2.prems" by simp
      then have "literalMatches n (drop (length n) ((c # cs) @ n)) = 0"
        by (rule literalMatches_short)
      then have "literalMatches n ((c # cs) @ n) = Suc 0"
        using True "2.prems" by (simp del: drop_Suc_Cons)
      then show ?thesis using z by simp
    next
      case False
      then show ?thesis using nf "2.IH"(2) [OF nf "2.prems"] by auto
    qed
  qed
qed

lemma sum_list_bump:
  fixes f g :: "'a \<Rightarrow> rat"
  assumes "\<And>u. f u \<le> g u" and "f t + d \<le> g t" and "t \<in> set xs"
  shows "sum_list (map f xs) + d \<le> sum_list (map g xs)"
proof -
  obtain pre post where sp: "xs = pre @ t # post"
    using assms(3) by (meson split_list)
  have a: "sum_list (map f pre) \<le> sum_list (map g pre)"
    by (rule sum_list_mono) (rule assms(1))
  have b: "sum_list (map f post) \<le> sum_list (map g post)"
    by (rule sum_list_mono) (rule assms(1))
  have "sum_list (map f xs) + d = sum_list (map f pre) + (f t + d) + sum_list (map f post)"
    unfolding sp by simp
  also have "\<dots> \<le> sum_list (map g pre) + g t + sum_list (map g post)"
    by (intro add_mono a b assms(2))
  also have "\<dots> = sum_list (map g xs)"
    unfolding sp by simp
  finally show ?thesis .
qed

text \<open>
  For tokens that are literals the score rises: when no query token of length above 2
  contains a syntax character of regular expressions, and lowercasing the composite of the
  extended document gives the lowercased composite followed by the token, appending the
  token to the content raises the keyword score by at least one half.
\<close>

lemma keyword_score_append_literal:
  assumes lit: "\<forall>u\<in>set (keywordTerms toLowerCase query). literalPattern u"
      and t: "t \<in> set (keywordTerms toLowerCase query)"
      and low: "searchText toLowerCase (c\<lparr>caseContent := caseContent c @ t\<rparr>)
                  = searchText toLowerCase c @ t"
  shows "\<exists>s s'. keywordScore toLowerCase engine query c = Inr s
     \<and> keywordScore toLowerCase engine query (c\<lparr>caseContent := caseContent c @ t\<rparr>) = Inr s'
     \<and> s + 1 / 2 \<le> s' \<and> s < s'"
proof -
  let ?c' = "c\<lparr>caseContent := caseContent c @ t\<rparr>"
  define P :: "jsstring \<Rightarrow> rat" where
    "P = (\<lambda>u. (if includesStr (toLowerCase (caseTitle c)) u then 3 else 0)
        + (if \<exists>tag\<in>set (caseTags c). includesStr (toLowerCase tag) u then 2 else 0))"
  define f where "f = (\<lambda>u. P u + of_nat (literalMatches u (searchText toLowerCase c)) / 2)"
  define g where
    "g = (\<lambda>u. P u + of_nat (literalMatches u (searchText toLowerCase c @ t)) / 2)"
  have tn: "t \<noteq> []" using t by (rule keywordTerms_nonempty)
  have s: "keywordScore toLowerCase engine query c
             = Inr (sum_list (map f (keywordTerms toLowerCase query)))"
    unfolding f_def P_def by (rule keywordScore_points [OF lit])
  have s': "keywordScore toLowerCase engine query ?c'
              = Inr (sum_list (map g (keywordTerms toLowerCase query)))"
    unfolding g_def P_def
    using keywordScore_points [OF lit, where engine = engine and c = ?c'] by (simp add: low)
  have mono: "f u \<le> g u" for u
    unfolding f_def g_def
    using literalMatches_append_mono [of u "searchText toLowerCase c" t]
    by (simp add: divide_right_mono)
  have step: "f t + 1 / 2 \<le> g t"
    unfolding f_def g_def
    using literalMatches_append_self [OF tn, of "searchText toLowerCase c"]
    by (simp add: add_divide_distrib)
  have le: "sum_list (map f (keywordTerms toLowerCase query)) + 1 / 2
              \<le> sum_list (map g (keywordTerms toLowerCase query))"
    using mono step t by (rule sum_list_bump)
  then have "sum_list (map f (keywordTerms toLowerCase query))
               < sum_list (map g (keywordTerms toLowerCase query))"
    by simp
  with s s' le show ?thesis by blast
qed

text \<open>
  The query \<open>auth\<close> on \<open>docB\<close>: the token is a literal, the composite is ASCII, and the
  score rises from 6.5 to 7.
\<close>

lemma keyword_score_append_literal_example:
  "(\<forall>u\<in>set (keywordTerms asciiLowerCase (codeUnits ''auth'')). literalPattern u)
   \<and> codeUnits ''auth'' \<in> set (keywordTerms asciiLowerCase (codeUnits ''auth''))
   \<and> searchText asciiLowerCase (docB\<lparr>caseContent := caseContent docB @ codeUnits ''auth''\<rparr>)
       = searchText asciiLowerCase docB @ codeUnits ''auth''
   \<and> keywordScore asciiLowerCase noEngine (codeUnits ''auth'') docB = Inr (13 / 2)
   \<and> keywordScore asciiLowerCase noEngine (codeUnits ''auth'')
         (docB\<lparr>caseContent := caseContent docB @ codeUnits ''auth''\<rparr>) = Inr 7"
  by (simp add: eval_defs docB_def)

text \<open>
  C9. The claim: appending one more occurrence of a matched query token to the content of
  a document gives a strictly greater keyword score. The code departs from it where the
  token is not a literal pattern, because \<open>new RegExp(term, 'g')\<close> takes the token
  unescaped, while the title and the tags are tested with \<open>includes\<close>. The token \<open>abc$\<close>
  occurs in the title of \<open>docY\<close> and, as a pattern, matches the end of its content. Once
  the token is appended the content ends with a dollar sign and the pattern matches
  nowhere: the score falls from 3.5 to 3.
\<close>

theorem keyword_score_append_failing_input:
  "keywordTerms asciiLowerCase (codeUnits ''abc$'') = [codeUnits ''abc$'']
   \<and> includesStr (asciiLowerCase (caseTitle docY)) (codeUnits ''abc$'')
   \<and> keywordScore asciiLowerCase lenientEngine (codeUnits ''abc$'') docY = Inr (7 / 2)
   \<and> keywordScore asciiLowerCase lenientEngine (codeUnits ''abc$'')
         (docY\<lparr>caseContent := caseContent docY @ codeUnits ''abc$''\<rparr>) = Inr 3"
  by (simp add: eval_defs docY_def)

section \<open>The order of the result\<close>

lemma keywordLoop_full: "\<not> of_nat (Map_size m) < L \<Longrightarrow> keywordLoop L m kw = m"
  by (induction kw) simp_all

lemma keywordLoop_prefix:
  "distinct (map resultId kw) \<Longrightarrow> resultId ` set kw \<inter> set (map fst m) = {} \<Longrightarrow>
     \<exists>ins. prefix ins kw \<and> keywordLoop L m kw = m @ map (\<lambda>r. (resultId r, r)) ins"
proof (induction kw arbitrary: m)
  case Nil
  then show ?case by simp
next
  case (Cons r kw)
  show ?case
  proof (cases "of_nat (Map_size m) < L")
    case True
    have new: "resultId r \<notin> set (map fst m)" using Cons.prems(2) by auto
    let ?m' = "m @ [(resultId r, r)]"
    have d: "distinct (map resultId kw)" using Cons.prems(1) by simp
    have "resultId ` set kw \<inter> set (map fst ?m') = {}"
      using Cons.prems by auto
    from Cons.IH [OF d this] obtain ins where
      ins: "prefix ins kw" "keywordLoop L ?m' kw = ?m' @ map (\<lambda>r. (resultId r, r)) ins"
      by blast
    have "prefix (r # ins) (r # kw)
        \<and> keywordLoop L m (r # kw) = m @ map (\<lambda>r. (resultId r, r)) (r # ins)"
      using ins True by (simp add: Map_set_new [OF new])
    then show ?thesis by blast
  next
    case False
    then have "keywordLoop L m (r # kw) = m" by (rule keywordLoop_full)
    then have "prefix [] (r # kw)
        \<and> keywordLoop L m (r # kw) = m @ map (\<lambda>r. (resultId r, r)) []" by simp
    then show ?thesis by blast
  qed
qed

lemma filterCases_distinct:
  "distinct (map caseId allCases) \<Longrightarrow> distinct (map caseId (filterCases options allCases))"
  by (simp add: filterCases_def Let_def distinct_map_filter)

lemma sortDescending_sorted:
  "sorted_wrt (\<lambda>a b. relevanceScore b \<le> relevanceScore a) (sortDescending rs)"
proof -
  have "sorted (map (\<lambda>r. - relevanceScore r) (sortDescending rs))"
    unfolding sortDescending_def by (rule sorted_sort_key)
  then show ?thesis by (simp add: sorted_map)
qed

lemma sortDescending_stable:
  "filter (\<lambda>r. relevanceScore r = s) (sortDescending rs)
     = filter (\<lambda>r. relevanceScore r = s) rs"
  using sort_key_stable [of "\<lambda>r. - relevanceScore r" "- s" rs]
  by (simp add: sortDescending_def)

lemma sortDescending_mset: "mset (sortDescending rs) = mset rs"
  by (simp add: sortDescending_def)

lemma performKeywordSearch_distinct:
  assumes "performKeywordSearch toLowerCase engine cases q = Inr kw" and "distinct (map caseId cases)"
  shows "distinct (map resultId kw)"
proof -
  from assms(1) obtain rs where rs: "scoreCases toLowerCase engine q cases = Inr rs"
    and kw: "kw = sortDescending (filter (\<lambda>r. relevanceScore r > 0) rs)"
    by (auto simp: performKeywordSearch_def split: sum.splits)
  have "distinct (map resultId rs)" using scoreCases_ids [OF rs] assms(2) by simp
  then have "distinct (map resultId (filter (\<lambda>r. relevanceScore r > 0) rs))"
    by (rule distinct_map_filter)
  moreover have "mset (map resultId kw)
                   = mset (map resultId (filter (\<lambda>r. relevanceScore r > 0) rs))"
    unfolding kw by (simp add: sortDescending_mset)
  ultimately show ?thesis using mset_eq_imp_distinct_iff by blast
qed

lemma performKeywordSearch_sorted:
  assumes "performKeywordSearch toLowerCase engine cases q = Inr kw"
  shows "sorted_wrt (\<lambda>a b. relevanceScore b \<le> relevanceScore a) kw"
  using assms by (auto simp: performKeywordSearch_def sortDescending_sorted split: sum.splits)

lemma slice0_take: "0 \<le> e \<Longrightarrow> slice0 xs e = take (nat \<lfloor>e\<rfloor>) xs"
proof -
  assume "0 \<le> e"
  then have "0 \<le> \<lfloor>e\<rfloor>" by simp
  then show ?thesis
    using \<open>0 \<le> e\<close> by (auto simp: slice0_def toIntegerOrInfinity_def Let_def min_def)
qed

text \<open>
  When the body of \<open>searchCases\<close> reaches its \<open>return\<close> and the limit is not negative,
  the returned list is the first \<open>limit\<close> elements (limit rounded down) of the values of
  the result map sorted by descending score: a rearrangement of the values, in descending
  order, in which the results of any one score keep the order they have in the map. When
  the ids of the store are distinct, as those of \<open>getAllCases\<close> are, the values of the map
  are the results of the vector hits followed by an initial segment of the keyword
  matches, which are themselves in descending order of score.
\<close>

lemma search_sorted_stable:
  assumes m: "resultMap toLowerCase engine adapter allCases query options = Inr results"
      and L: "0 \<le> limitOf options"
  shows "searchCases toLowerCase engine adapter allCases query options
           = take (nat \<lfloor>limitOf options\<rfloor>) (sortDescending (Map_values results))
     \<and> mset (sortDescending (Map_values results)) = mset (Map_values results)
     \<and> sorted_wrt (\<lambda>a b. relevanceScore b \<le> relevanceScore a)
          (sortDescending (Map_values results))
     \<and> (\<forall>s. filter (\<lambda>r. relevanceScore r = s) (sortDescending (Map_values results))
              = filter (\<lambda>r. relevanceScore r = s) (Map_values results))
     \<and> (distinct (map caseId allCases) \<longrightarrow>
          (\<exists>keywordMatches inserted.
             performKeywordSearch toLowerCase engine
               (keywordCandidates toLowerCase adapter allCases query options) query = Inr keywordMatches
             \<and> sorted_wrt (\<lambda>a b. relevanceScore b \<le> relevanceScore a) keywordMatches
             \<and> prefix inserted keywordMatches
             \<and> Map_values results
                 = Map_values (vectorEntries toLowerCase adapter allCases query options) @ inserted))"
proof -
  let ?V = "vectorEntries toLowerCase adapter allCases query options"
  let ?C = "keywordCandidates toLowerCase adapter allCases query options"
  from m obtain kw where kw: "performKeywordSearch toLowerCase engine ?C query = Inr kw"
    and res: "results = keywordLoop (limitOf options) ?V kw"
    by (auto simp: resultMap_def split: sum.splits)
  have 1: "searchCases toLowerCase engine adapter allCases query options
             = take (nat \<lfloor>limitOf options\<rfloor>) (sortDescending (Map_values results))"
    using m slice0_take [OF L] by (simp add: searchCases_def searchBody_def)
  have 5: "\<exists>keywordMatches inserted.
           performKeywordSearch toLowerCase engine ?C query = Inr keywordMatches
           \<and> sorted_wrt (\<lambda>a b. relevanceScore b \<le> relevanceScore a) keywordMatches
           \<and> prefix inserted keywordMatches
           \<and> Map_values results = Map_values ?V @ inserted"
    if d: "distinct (map caseId allCases)"
  proof -
    have dC: "distinct (map caseId ?C)"
      unfolding keywordCandidates_def
      by (rule distinct_map_filter) (rule filterCases_distinct [OF d])
    have dk: "distinct (map resultId kw)"
      by (rule performKeywordSearch_distinct [OF kw dC])
    have "\<forall>x\<in>set ?C. caseId x \<notin> set (map fst ?V)"
      by (simp add: keywordCandidates_def Map_has_def)
    then have "caseId ` set ?C \<inter> set (map fst ?V) = {}"
      by blast
    then have "resultId ` set kw \<inter> set (map fst ?V) = {}"
      using performKeywordSearch_ids [OF kw] by blast
    from keywordLoop_prefix [OF dk this, of "limitOf options"] obtain ins where
      ins: "prefix ins kw"
        "keywordLoop (limitOf options) ?V kw = ?V @ map (\<lambda>r. (resultId r, r)) ins"
      by blast
    have v: "Map_values results = Map_values ?V @ ins"
      using res ins(2) by (simp add: Map_values_def comp_def)
    show ?thesis
      using kw performKeywordSearch_sorted [OF kw] ins(1) v by blast
  qed
  show ?thesis
    using 1 5 by (simp add: sortDescending_mset sortDescending_sorted sortDescending_stable)
qed

text \<open>
  For the query \<open>fast\<close> the vector hit \<open>b\<close> and the keyword match \<open>a\<close> have the same
  score, one half: \<open>b\<close> comes first, though \<open>a\<close> is first in the store.
\<close>

lemma search_sorted_stable_example:
  "map resultId (searchCases asciiLowerCase noEngine tieHit [docA, docB] (codeUnits ''fast'') noOptions)
     = [codeUnits ''b'', codeUnits ''a'']
   \<and> map relevanceScore
         (searchCases asciiLowerCase noEngine tieHit [docA, docB] (codeUnits ''fast'') noOptions)
       = [1 / 2, 1 / 2]
   \<and> (\<exists>results.
         resultMap asciiLowerCase noEngine tieHit [docA, docB] (codeUnits ''fast'') noOptions = Inr results
         \<and> searchCases asciiLowerCase noEngine tieHit [docA, docB] (codeUnits ''fast'') noOptions
             = take (nat \<lfloor>limitOf noOptions\<rfloor>) (sortDescending (Map_values results))
         \<and> (\<exists>keywordMatches inserted.
               performKeywordSearch asciiLowerCase noEngine
                 (keywordCandidates asciiLowerCase tieHit [docA, docB] (codeUnits ''fast'') noOptions)
                 (codeUnits ''fast'') = Inr keywordMatches
               \<and> prefix inserted keywordMatches
               \<and> Map_values results
                   = Map_values (vectorEntries asciiLowerCase tieHit [docA, docB] (codeUnits ''fast'')
                                   noOptions) @ inserted))"
proof -
  let ?R = "searchCases asciiLowerCase noEngine tieHit [docA, docB] (codeUnits ''fast'') noOptions"
  let ?M = "resultMap asciiLowerCase noEngine tieHit [docA, docB] (codeUnits ''fast'') noOptions"
  have 1: "map resultId ?R = [codeUnits ''b'', codeUnits ''a'']"
    by (simp add: eval_defs docA_def docB_def tieHit_def noEngine_def noOptions_def)
  have 2: "map relevanceScore ?R = [1 / 2, 1 / 2]"
    by (simp add: eval_defs docA_def docB_def tieHit_def noEngine_def noOptions_def)
  obtain results where m: "?M = Inr results"
  proof (cases ?M)
    case (Inl e)
    then have "?R = []" by (simp add: searchCases_def searchBody_def)
    with 1 show ?thesis by simp
  next
    case (Inr r)
    with that show ?thesis .
  qed
  have L: "0 \<le> limitOf noOptions"
    by (simp add: limitOf_def noOptions_def)
  have d: "distinct (map caseId [docA, docB])"
    by (simp add: docA_def docB_def codeUnits_def)
  note t = search_sorted_stable [OF m L]
  have 3: "?R = take (nat \<lfloor>limitOf noOptions\<rfloor>) (sortDescending (Map_values results))"
    using t by (elim conjE)
  have "\<exists>keywordMatches inserted.
          performKeywordSearch asciiLowerCase noEngine
            (keywordCandidates asciiLowerCase tieHit [docA, docB] (codeUnits ''fast'') noOptions)
            (codeUnits ''fast'') = Inr keywordMatches
          \<and> sorted_wrt (\<lambda>a b. relevanceScore b \<le> relevanceScore a) keywordMatches
          \<and> prefix inserted keywordMatches
          \<and> Map_values results
              = Map_values (vectorEntries asciiLowerCase tieHit [docA, docB] (codeUnits ''fast'')
                              noOptions) @ inserted"
    using t d by (elim conjE impE)
  then obtain keywordMatches inserted where 4:
    "performKeywordSearch asciiLowerCase noEngine
       (keywordCandidates asciiLowerCase tieHit [docA, docB] (codeUnits ''fast'') noOptions)
       (codeUnits ''fast'') = Inr keywordMatches"
    "prefix inserted keywordMatches"
    "Map_values results
       = Map_values (vectorEntries asciiLowerCase tieHit [docA, docB] (codeUnits ''fast'') noOptions)
           @ inserted"
    by (elim exE conjE)
  show ?thesis
    by (intro conjI 1 2 exI [of _ results] exI [of _ keywordMatches] exI [of _ inserted]
          m 3 4)
qed

text \<open>
  C3. The claim: the list returned by \<open>searchCases\<close> is the values of the result map
  sorted by descending score, ties in insertion order, cut to the limit. The code departs
  from it where a query token is not a pattern, because \<open>new RegExp(term, 'g')\<close> takes the
  token unescaped. For the query \<open>(((\<close>, a store of \<open>docB\<close> and \<open>docC\<close> and an index whose
  hit is \<open>b\<close>, the map holds the result of the hit when the score of \<open>docC\<close> is computed;
  the constructor throws, and \<open>searchCases\<close> returns the empty list where the sorted
  values of the map are the result for \<open>b\<close>.
\<close>

theorem search_sorted_failing_input:
  "keywordTerms asciiLowerCase (codeUnits ''((('') = [codeUnits ''((('']
   \<and> map resultId
         (Map_values (vectorEntries asciiLowerCase tieHit [docB, docC] (codeUnits ''((('')
                        noOptions)) = [codeUnits ''b'']
   \<and> keywordCandidates asciiLowerCase tieHit [docB, docC] (codeUnits ''((('') noOptions
       = [docC]
   \<and> map resultId
         (slice0 (sortDescending
                    (Map_values (vectorEntries asciiLowerCase tieHit [docB, docC]
                                   (codeUnits ''((('') noOptions)))
            (limitOf noOptions)) = [codeUnits ''b'']
   \<and> searchCases asciiLowerCase lenientEngine tieHit [docB, docC] (codeUnits ''((('')
         noOptions = []"
  by (simp add: eval_defs docC_def docB_def tieHit_def lenientEngine_def noOptions_def)

end
